theory Spec2Isabelle
  imports Main "HOL-Library.Word" "HOL-Library.AList"
begin

section \<open>JavaScript preliminaries\<close>

text \<open>
  The development embeds \<^verbatim>\<open>src/main.js\<close>. A function of the source that mutates the
  document or one of its objects takes the state and returns the new one. An exception
  is a value: a call either returns normally (\<open>Inr\<close> of the new state) or throws
  (\<open>Inl\<close> of the error together with the state reached when it was thrown, since the
  mutations done before a throw stay done).
\<close>

datatype js_error = TypeError | SubmitError

type_synonym 's result = "(js_error \<times> 's) + 's"

text \<open>The state a call leaves behind, whether it returned or threw.\<close>

fun state_of :: "'s result \<Rightarrow> 's" where
  "state_of (Inl (e, s)) = s"
| "state_of (Inr s) = s"

text \<open>Sequencing: the statements after a throwing one are not run.\<close>

fun and_then :: "'s result \<Rightarrow> ('s \<Rightarrow> 's result) \<Rightarrow> 's result" where
  "and_then (Inl e) f = Inl e"
| "and_then (Inr s) f = f s"

text \<open>\<^verbatim>\<open>xs.forEach(f)\<close>: the callback runs on each element in order until one throws.\<close>

fun forEach :: "('a \<Rightarrow> 's \<Rightarrow> 's result) \<Rightarrow> 'a list \<Rightarrow> 's \<Rightarrow> 's result" where
  "forEach f [] s = Inr s"
| "forEach f (x # xs) s = and_then (f x s) (forEach f xs)"

text \<open>
  A JavaScript number that holds an integer or \<open>NaN\<close>, and the remainder operator
  \<^verbatim>\<open>%\<close> on it: the result has the sign of the dividend, and a zero divisor gives
  \<open>NaN\<close>.
\<close>

datatype js_num = NaN | Num int

fun js_rem :: "js_num \<Rightarrow> js_num \<Rightarrow> js_num" where
  "js_rem (Num a) (Num b) = (if b = 0 then NaN else Num (sgn a * (\<bar>a\<bar> mod \<bar>b\<bar>)))"
| "js_rem _ _ = NaN"

fun js_add :: "js_num \<Rightarrow> js_num \<Rightarrow> js_num" where
  "js_add (Num a) (Num b) = Num (a + b)"
| "js_add _ _ = NaN"

text \<open>
  \<^verbatim>\<open>xs[i]\<close> on an array-like: the position read, or \<open>None\<close> when the element is
  \<^verbatim>\<open>undefined\<close> (the index is out of range or \<open>NaN\<close>).
\<close>

fun js_slot :: "'a list \<Rightarrow> js_num \<Rightarrow> nat option" where
  "js_slot xs NaN = None"
| "js_slot xs (Num i) = (if 0 \<le> i \<and> i < int (length xs) then Some (nat i) else None)"

section \<open>Loading screen: the status text\<close>

text \<open>
  \<^verbatim>\<open>LoadingScreen\<close> (main.js, lines 385-417): the constructor's list of texts and index,
  and the interval that \<^verbatim>\<open>animateLoadingText\<close> starts. \<open>loaderText\<close> is the
  \<^verbatim>\<open>textContent\<close> of the element the selector \<^verbatim>\<open>.loader-text\<close> finds, \<open>None\<close> when the
  document has no such element; \<open>textInterval\<close> says whether the interval is still set.
  The second timer of the loading screen (\<^verbatim>\<open>simulateLoading\<close>, 3000ms) does not touch
  the text and is left out.
\<close>

record loading_screen =
  loadingTexts :: "string list"
  currentTextIndex :: nat
  loaderText :: "string option"
  textInterval :: bool

definition LoadingScreen :: "string option \<Rightarrow> loading_screen" where
  "LoadingScreen shown =
     \<lparr>loadingTexts =
        [''Loading Portfolio...'',
         ''Initializing Components...'',
         ''Setting up Navigation...'',
         ''Finalizing Experience...'',
         ''Ready!''],
      currentTextIndex = 0,
      loaderText = shown,
      textInterval = True\<rparr>"

text \<open>
  The callback of \<^verbatim>\<open>setInterval(..., 600)\<close>. Assigning \<^verbatim>\<open>textContent\<close> of a missing
  element throws before the index is advanced.
\<close>

definition text_tick :: "loading_screen \<Rightarrow> loading_screen result" where
  "text_tick l =
     (if currentTextIndex l < length (loadingTexts l) - 1
      then (case loaderText l of
              None \<Rightarrow> Inl (TypeError, l)
            | Some _ \<Rightarrow>
                Inr (l\<lparr>loaderText := Some (loadingTexts l ! currentTextIndex l),
                       currentTextIndex := currentTextIndex l + 1\<rparr>))
      else Inr (l\<lparr>textInterval := False\<rparr>))"

text \<open>
  The state after \<open>n\<close> periods of 600ms: the interval fires once per period for as long
  as it is set, whether or not an earlier callback threw.
\<close>

primrec text_ticks :: "nat \<Rightarrow> loading_screen \<Rightarrow> loading_screen" where
  "text_ticks 0 l = l"
| "text_ticks (Suc n) l =
     (let l1 = text_ticks n l
      in if textInterval l1 then state_of (text_tick l1) else l1)"

section \<open>Testimonial carousel\<close>

text \<open>
  \<^verbatim>\<open>initTestimonialsCarousel\<close> (main.js, lines 612-651). The slides and the dots are
  the two node lists the function queries; \<open>currentSlide\<close> and \<open>autoAdvanceInterval\<close>
  are its local variables, captured by the callbacks.
\<close>

record slide =
  slide_active :: bool
  slide_aria_hidden :: string

record dot =
  dot_active :: bool
  dot_aria_selected :: string
  dot_tabindex :: string

record carousel =
  slides :: "slide list"
  dots :: "dot list"
  currentSlide :: js_num
  autoAdvanceInterval :: bool

definition hidden_slide :: "slide \<Rightarrow> slide" where
  "hidden_slide sl = sl\<lparr>slide_active := False, slide_aria_hidden := ''true''\<rparr>"

definition shown_slide :: "slide \<Rightarrow> slide" where
  "shown_slide sl = sl\<lparr>slide_active := True, slide_aria_hidden := ''false''\<rparr>"

definition unselected_dot :: "dot \<Rightarrow> dot" where
  "unselected_dot d = d\<lparr>dot_active := False, dot_aria_selected := ''false'', dot_tabindex := ''-1''\<rparr>"

definition selected_dot :: "dot \<Rightarrow> dot" where
  "selected_dot d = d\<lparr>dot_active := True, dot_aria_selected := ''true'', dot_tabindex := ''0''\<rparr>"

text \<open>
  The body of the \<^verbatim>\<open>slides.forEach((slide, i) => ...)\<close> loop of \<^verbatim>\<open>showSlide\<close>: the slide
  is hidden first; \<^verbatim>\<open>dots[i]\<close> is \<^verbatim>\<open>undefined\<close> when there are fewer dots than slides,
  and reading its \<^verbatim>\<open>classList\<close> throws.
\<close>

definition hide_slide :: "nat \<Rightarrow> carousel \<Rightarrow> carousel result" where
  "hide_slide i c =
     (let c1 = c\<lparr>slides := (slides c)[i := hidden_slide (slides c ! i)]\<rparr>
      in if i < length (dots c1)
         then Inr (c1\<lparr>dots := (dots c1)[i := unselected_dot (dots c1 ! i)]\<rparr>)
         else Inl (TypeError, c1))"

definition showSlide :: "js_num \<Rightarrow> carousel \<Rightarrow> carousel result" where
  "showSlide index c =
     and_then (forEach hide_slide [0..<length (slides c)] c) (\<lambda>c1.
       case js_slot (slides c1) index of
         None \<Rightarrow> Inl (TypeError, c1)
       | Some i \<Rightarrow>
           (let c2 = c1\<lparr>slides := (slides c1)[i := shown_slide (slides c1 ! i)]\<rparr>
            in case js_slot (dots c2) index of
                 None \<Rightarrow> Inl (TypeError, c2)
               | Some j \<Rightarrow> Inr (c2\<lparr>dots := (dots c2)[j := selected_dot (dots c2 ! j)]\<rparr>)))"

text \<open>The callback of \<^verbatim>\<open>setInterval(..., 5000)\<close> in \<^verbatim>\<open>startAutoAdvance\<close>.\<close>

definition autoAdvance :: "carousel \<Rightarrow> carousel result" where
  "autoAdvance c =
     (let c1 = c\<lparr>currentSlide :=
                  js_rem (js_add (currentSlide c) (Num 1)) (Num (int (length (slides c))))\<rparr>
      in showSlide (currentSlide c1) c1)"

definition startAutoAdvance :: "carousel \<Rightarrow> carousel" where
  "startAutoAdvance c = c\<lparr>autoAdvanceInterval := True\<rparr>"

text \<open>
  The click handler of a dot; \<open>k\<close> is \<^verbatim>\<open>parseInt(e.target.dataset.slide)\<close>. The timer is
  restarted only when \<^verbatim>\<open>showSlide\<close> returned.
\<close>

definition dot_click :: "js_num \<Rightarrow> carousel \<Rightarrow> carousel result" where
  "dot_click k c =
     and_then (showSlide k (c\<lparr>currentSlide := k\<rparr>)) (\<lambda>c1. Inr (startAutoAdvance c1))"

text \<open>
  The function itself, on the two node lists it finds: \<open>currentSlide\<close> starts at 0, the
  first slide is shown and, when that returned, the interval is started.
\<close>

definition initTestimonialsCarousel :: "slide list \<Rightarrow> dot list \<Rightarrow> carousel result" where
  "initTestimonialsCarousel sls ds =
     (let c = \<lparr>slides = sls, dots = ds, currentSlide = Num 0, autoAdvanceInterval = False\<rparr>
      in and_then (showSlide (currentSlide c) c) (\<lambda>c1. Inr (startAutoAdvance c1)))"

text \<open>
  \<open>n\<close> firings of the interval. The interval fires only when it was started, and it
  goes on firing after a callback threw.
\<close>

primrec advances :: "nat \<Rightarrow> carousel \<Rightarrow> carousel result" where
  "advances 0 c = Inr c"
| "advances (Suc n) c =
     (let c1 = state_of (advances n c)
      in if autoAdvanceInterval c1 then autoAdvance c1 else Inr c1)"

text \<open>The indices of the slides that carry the \<^verbatim>\<open>active\<close> class.\<close>

definition active_slides :: "carousel \<Rightarrow> nat list" where
  "active_slides c = filter (\<lambda>i. slide_active (slides c ! i)) [0..<length (slides c)]"

text \<open>A document with three slides and three dots, none shown yet.\<close>

definition three_slides :: "slide list" where
  "three_slides = replicate 3 \<lparr>slide_active = False, slide_aria_hidden = ''true''\<rparr>"

definition three_dots :: "dot list" where
  "three_dots = replicate 3 \<lparr>dot_active = False, dot_aria_selected = ''false'', dot_tabindex = ''-1''\<rparr>"

definition three_started :: carousel where
  "three_started =
     \<lparr>slides = [\<lparr>slide_active = True, slide_aria_hidden = ''false''\<rparr>,
                \<lparr>slide_active = False, slide_aria_hidden = ''true''\<rparr>,
                \<lparr>slide_active = False, slide_aria_hidden = ''true''\<rparr>],
      dots = [\<lparr>dot_active = True, dot_aria_selected = ''true'', dot_tabindex = ''0''\<rparr>,
              \<lparr>dot_active = False, dot_aria_selected = ''false'', dot_tabindex = ''-1''\<rparr>,
              \<lparr>dot_active = False, dot_aria_selected = ''false'', dot_tabindex = ''-1''\<rparr>],
      currentSlide = Num 0, autoAdvanceInterval = True\<rparr>"

section \<open>Strings, trimming and regular expressions\<close>

text \<open>
  A JavaScript string is a sequence of 16-bit code units. \<open>lit\<close> embeds an ASCII
  literal of the source.
\<close>

type_synonym code_unit = "16 word"

type_synonym js_string = "code_unit list"

definition lit :: "string \<Rightarrow> js_string" where
  "lit s = map (\<lambda>c. of_nat (of_char c)) s"

text \<open>
  The code units that \<^verbatim>\<open>String.prototype.trim\<close> strips and that \<^verbatim>\<open>\s\<close> matches: the
  white space and line terminator characters of the language (tab, line feed,
  vertical tab, form feed, carriage return, space, no-break space, U+1680,
  U+2000..U+200A, U+2028, U+2029, U+202F, U+205F, U+3000, U+FEFF).
\<close>

definition is_space :: "code_unit \<Rightarrow> bool" where
  "is_space c =
     (c \<in> set [0x09, 0x0A, 0x0B, 0x0C, 0x0D, 0x20, 0xA0, 0x1680,
               0x2028, 0x2029, 0x202F, 0x205F, 0x3000, 0xFEFF]
      \<or> (0x2000 \<le> c \<and> c \<le> 0x200A))"

definition trim :: "js_string \<Rightarrow> js_string" where
  "trim s = rev (dropWhile is_space (rev (dropWhile is_space s)))"

text \<open>
  Regular expressions over code units, as far as the source uses them: a class of
  code units (a literal character is the class of that one unit), concatenation and
  the quantifiers; \<open>RNone\<close>, \<open>REmpty\<close> and \<open>RAlt\<close> appear in derivatives only.
\<close>

datatype regexp =
    RNone
  | REmpty
  | RClass "code_unit \<Rightarrow> bool"
  | RSeq regexp regexp
  | RAlt regexp regexp
  | RStar regexp
  | RPlus regexp

fun nullable :: "regexp \<Rightarrow> bool" where
  "nullable RNone = False"
| "nullable REmpty = True"
| "nullable (RClass p) = False"
| "nullable (RSeq r s) = (nullable r \<and> nullable s)"
| "nullable (RAlt r s) = (nullable r \<or> nullable s)"
| "nullable (RStar r) = True"
| "nullable (RPlus r) = nullable r"

fun deriv :: "code_unit \<Rightarrow> regexp \<Rightarrow> regexp" where
  "deriv c RNone = RNone"
| "deriv c REmpty = RNone"
| "deriv c (RClass p) = (if p c then REmpty else RNone)"
| "deriv c (RSeq r s) =
     (if nullable r then RAlt (RSeq (deriv c r) s) (deriv c s) else RSeq (deriv c r) s)"
| "deriv c (RAlt r s) = RAlt (deriv c r) (deriv c s)"
| "deriv c (RStar r) = RSeq (deriv c r) (RStar r)"
| "deriv c (RPlus r) = RSeq (deriv c r) (RStar r)"

text \<open>
  \<^verbatim>\<open>/^r$/.test(s)\<close>: with both anchors and no flags the test succeeds exactly when the
  whole string matches \<open>r\<close>.
\<close>

definition regexp_test :: "regexp \<Rightarrow> js_string \<Rightarrow> bool" where
  "regexp_test r s = nullable (fold deriv s r)"

text \<open>The strings a regular expression denotes.\<close>

definition conc :: "js_string set \<Rightarrow> js_string set \<Rightarrow> js_string set" where
  "conc A B = {u @ v | u v. u \<in> A \<and> v \<in> B}"

inductive_set star :: "js_string set \<Rightarrow> js_string set" for A :: "js_string set" where
  star_empty: "[] \<in> star A"
| star_more: "u \<in> A \<Longrightarrow> v \<in> star A \<Longrightarrow> u @ v \<in> star A"

fun lang :: "regexp \<Rightarrow> js_string set" where
  "lang RNone = {}"
| "lang REmpty = {[]}"
| "lang (RClass p) = {[c] | c. p c}"
| "lang (RSeq r s) = conc (lang r) (lang s)"
| "lang (RAlt r s) = lang r \<union> lang s"
| "lang (RStar r) = star (lang r)"
| "lang (RPlus r) = conc (lang r) (star (lang r))"

section \<open>Contact form\<close>

text \<open>
  \<^verbatim>\<open>initFormValidation\<close> (main.js, lines 654-761) and \<^verbatim>\<open>window.utils.showNotification\<close>
  (lines 43-63). The table \<open>inputs\<close> is the array of the source; the pattern of the
  e-mail entry is \<^verbatim>\<open>/^[^\s@]+@[^\s@]+\.[^\s@]+$/\<close>. The listeners for \<^verbatim>\<open>input\<close> and \<^verbatim>\<open>blur\<close>
  call \<^verbatim>\<open>validateInput\<close> on one field, as the submit listener does on each.
\<close>

record field =
  field_id :: string
  errorId :: string
  validate :: "js_string \<Rightarrow> bool"
  msg :: string

definition not_space_or_at :: "code_unit \<Rightarrow> bool" where
  "not_space_or_at c = (\<not> (is_space c \<or> c = 0x40))"

definition email_regexp :: regexp where
  "email_regexp =
     RSeq (RPlus (RClass not_space_or_at))
       (RSeq (RClass (\<lambda>c. c = 0x40))
         (RSeq (RPlus (RClass not_space_or_at))
           (RSeq (RClass (\<lambda>c. c = 0x2E))
             (RPlus (RClass not_space_or_at)))))"

definition inputs :: "field list" where
  "inputs =
     [\<lparr>field_id = ''contactName'', errorId = ''nameError'',
        validate = (\<lambda>val. length val > 0), msg = ''Full Name is required.''\<rparr>,
      \<lparr>field_id = ''contactEmail'', errorId = ''emailError'',
        validate = (\<lambda>val. regexp_test email_regexp val),
        msg = ''Please enter a valid email address.''\<rparr>,
      \<lparr>field_id = ''contactSubject'', errorId = ''subjectError'',
        validate = (\<lambda>val. length val > 0), msg = ''Subject is required.''\<rparr>,
      \<lparr>field_id = ''contactMessage'', errorId = ''messageError'',
        validate = (\<lambda>val. length val > 0), msg = ''Message cannot be empty.''\<rparr>]"

text \<open>
  The part of the document the form code reads and writes. The controls are listed in
  document order. Of a control: its id, its tag name, its value and the default value
  that \<^verbatim>\<open>reset()\<close> restores, the form groups (elements of class \<^verbatim>\<open>form-group\<close>) among
  its ancestors, nearest first, whether it is a descendant of \<^verbatim>\<open>#contactForm\<close>, and its
  \<^verbatim>\<open>aria-invalid\<close> attribute.
\<close>

record control =
  ctl_id :: string
  ctl_tag :: string
  ctl_value :: js_string
  ctl_default :: js_string
  ctl_groups :: "nat list"
  ctl_in_form :: bool
  ctl_aria_invalid :: "string option"

datatype console_level = Warn | Error

text \<open>
  \<open>invalid_groups\<close>: the form groups that carry the class \<^verbatim>\<open>invalid\<close>. \<open>error_text\<close>: the
  \<^verbatim>\<open>textContent\<close> of the element of a given id, \<open>None\<close> when there is no such element.
  \<open>notifications\<close>: the messages appended to \<^verbatim>\<open>#notification-container\<close>, with their
  type, in order (their removal after the animation is not modelled).
  \<open>focused\<close>: the position of the control that \<^verbatim>\<open>focus()\<close> was last called on.
  \<open>default_prevented\<close>: the flag of the submit event being dispatched.
  \<open>awaiting\<close>: the invocations of the submit handler suspended at their \<^verbatim>\<open>await\<close>, each
  with the \<^verbatim>\<open>originalText\<close> it captured. \<open>restore_timers\<close>: the pending 2000ms timers
  of the \<^verbatim>\<open>finally\<close> block, each with the text it will restore.
\<close>

record form_state =
  controls :: "control list"
  invalid_groups :: "nat set"
  error_text :: "string \<Rightarrow> string option"
  notification_container :: bool
  notifications :: "(string \<times> string) list"
  form_console :: "(console_level \<times> string) list"
  focused :: "nat option"
  default_prevented :: bool
  btn_present :: bool
  btn_html :: string
  btn_disabled :: bool
  btn_aria_busy :: "string option"
  btn_background :: string
  awaiting :: "string list"
  restore_timers :: "string list"

definition showNotification :: "string \<Rightarrow> string \<Rightarrow> form_state \<Rightarrow> form_state" where
  "showNotification message type s =
     (if \<not> notification_container s
      then s\<lparr>form_console := form_console s @ [(Warn, ''Notification container not found.'')]\<rparr>
      else s\<lparr>notifications := notifications s @ [(message, type)]\<rparr>)"

text \<open>
  \<^verbatim>\<open>document.getElementById(id)\<close> for a control: the position of the first control with
  that id, \<open>None\<close> for \<^verbatim>\<open>null\<close>.
\<close>

fun first_index :: "('a \<Rightarrow> bool) \<Rightarrow> 'a list \<Rightarrow> nat option" where
  "first_index p [] = None"
| "first_index p (x # xs) =
     (if p x then Some 0 else map_option Suc (first_index p xs))"

definition getControlById :: "string \<Rightarrow> form_state \<Rightarrow> nat option" where
  "getControlById i s = first_index (\<lambda>c. ctl_id c = i) (controls s)"

text \<open>\<^verbatim>\<open>document.getElementById(errorId)\<close>: the id itself stands for the element found.\<close>

definition getErrorElement :: "string \<Rightarrow> form_state \<Rightarrow> string option" where
  "getErrorElement i s = (case error_text s i of None \<Rightarrow> None | Some _ \<Rightarrow> Some i)"

text \<open>\<^verbatim>\<open>inputElement.closest('.form-group')\<close>.\<close>

definition closest_group :: "control \<Rightarrow> nat option" where
  "closest_group c = (case ctl_groups c of [] \<Rightarrow> None | g # _ \<Rightarrow> Some g)"

text \<open>
  \<^verbatim>\<open>validateInput\<close>. A call that returns gives \<^verbatim>\<open>isValid\<close> and the new state. Reading
  \<^verbatim>\<open>value\<close> of \<^verbatim>\<open>null\<close>, \<^verbatim>\<open>classList\<close> of a missing form group and assigning
  \<^verbatim>\<open>textContent\<close> of a missing error element throw, in this order.
\<close>

definition validateInput ::
  "nat option \<Rightarrow> string option \<Rightarrow> (js_string \<Rightarrow> bool) \<Rightarrow> string \<Rightarrow> form_state
     \<Rightarrow> (js_error \<times> form_state) + (bool \<times> form_state)" where
  "validateInput inputElement errorElement validationFn errorMessage s =
     (case inputElement of
        None \<Rightarrow> Inl (TypeError, s)
      | Some i \<Rightarrow>
          (let isValid = validationFn (trim (ctl_value (controls s ! i)));
               formGroup = closest_group (controls s ! i)
           in case formGroup of
                None \<Rightarrow> Inl (TypeError, s)
              | Some g \<Rightarrow>
                  (if \<not> isValid
                   then (let s1 = s\<lparr>invalid_groups := insert g (invalid_groups s)\<rparr>
                         in case errorElement of
                              None \<Rightarrow> Inl (TypeError, s1)
                            | Some e \<Rightarrow>
                                Inr (isValid,
                                     s1\<lparr>error_text := (error_text s1)(e \<mapsto> errorMessage),
                                        controls := (controls s1)
                                          [i := (controls s1 ! i)\<lparr>ctl_aria_invalid := Some ''true''\<rparr>]\<rparr>))
                   else (let s1 = s\<lparr>invalid_groups := invalid_groups s - {g}\<rparr>
                         in case errorElement of
                              None \<Rightarrow> Inl (TypeError, s1)
                            | Some e \<Rightarrow>
                                Inr (isValid,
                                     s1\<lparr>error_text := (error_text s1)(e \<mapsto> ''''),
                                        controls := (controls s1)
                                          [i := (controls s1 ! i)\<lparr>ctl_aria_invalid := Some ''false''\<rparr>]\<rparr>)))))"

text \<open>
  The loop \<^verbatim>\<open>inputs.forEach(item => { ... if (!validateInput(...)) allValid = false })\<close>
  of the submit handler, with the local variable \<^verbatim>\<open>allValid\<close> threaded through.
\<close>

fun validate_fields ::
  "field list \<Rightarrow> bool \<Rightarrow> form_state \<Rightarrow> (js_error \<times> form_state) + (bool \<times> form_state)" where
  "validate_fields [] allValid s = Inr (allValid, s)"
| "validate_fields (item # items) allValid s =
     (case validateInput (getControlById (field_id item) s) (getErrorElement (errorId item) s)
             (validate item) (msg item) s of
        Inl e \<Rightarrow> Inl e
      | Inr (ok, s1) \<Rightarrow> validate_fields items (if \<not> ok then False else allValid) s1)"

text \<open>
  \<^verbatim>\<open>contactForm.querySelector('.form-group.invalid input, .form-group.invalid textarea')\<close>:
  the first control in document order, inside the form, that is an \<^verbatim>\<open>input\<close> or a
  \<^verbatim>\<open>textarea\<close> and has an invalid form group among its ancestors.
\<close>

definition firstInvalid :: "form_state \<Rightarrow> nat option" where
  "firstInvalid s =
     first_index
       (\<lambda>c. ctl_in_form c \<and> (ctl_tag c = ''input'' \<or> ctl_tag c = ''textarea'')
            \<and> list_ex (\<lambda>g. g \<in> invalid_groups s) (ctl_groups c))
       (controls s)"

text \<open>
  The submit listener up to its \<^verbatim>\<open>await\<close>. When all fields are valid the button is put
  in its busy state and the invocation is suspended (the simulated call is started);
  otherwise the error notification is shown and the first invalid control focused.
\<close>

definition submit_handler :: "form_state \<Rightarrow> form_state result" where
  \<open>submit_handler s =
     (let s0 = s\<lparr>default_prevented := True\<rparr>
      in case validate_fields inputs True s0 of
           Inl e \<Rightarrow> Inl e
         | Inr (allValid, s1) \<Rightarrow>
             (if allValid
              then (if \<not> btn_present s1 then Inl (TypeError, s1)
                    else Inr (s1\<lparr>btn_html := ''<i class="ri-loader-4-line ri-spin"></i> Sending...'',
                                 btn_disabled := True,
                                 btn_aria_busy := Some ''true'',
                                 awaiting := awaiting s1 @ [btn_html s1]\<rparr>))
              else (let s2 = showNotification ''Please correct the errors in the form.'' ''error'' s1
                    in case firstInvalid s2 of
                         None \<Rightarrow> Inr s2
                       | Some i \<Rightarrow> Inr (s2\<lparr>focused := Some i\<rparr>))))\<close>

text \<open>\<^verbatim>\<open>contactForm.reset()\<close>: the controls of the form get their default values back.\<close>

definition form_reset :: "form_state \<Rightarrow> form_state" where
  "form_reset s =
     s\<lparr>controls := map (\<lambda>c. if ctl_in_form c then c\<lparr>ctl_value := ctl_default c\<rparr> else c) (controls s)\<rparr>"

text \<open>The body of the loop that resets the validation state after a successful send.\<close>

definition reset_validation :: "field \<Rightarrow> form_state \<Rightarrow> form_state result" where
  "reset_validation item s =
     (case getControlById (field_id item) s of
        None \<Rightarrow> Inl (TypeError, s)
      | Some i \<Rightarrow>
          (case closest_group (controls s ! i) of
             None \<Rightarrow> Inl (TypeError, s)
           | Some g \<Rightarrow>
               (let s1 = s\<lparr>invalid_groups := invalid_groups s - {g}\<rparr>
                in case getErrorElement (errorId item) s1 of
                     None \<Rightarrow> Inl (TypeError, s1)
                   | Some e \<Rightarrow>
                       Inr (s1\<lparr>error_text := (error_text s1)(e \<mapsto> ''''),
                              controls := (controls s1)
                                [i := (controls s1 ! i)\<lparr>ctl_aria_invalid := Some ''false''\<rparr>]\<rparr>))))"

text \<open>
  How the awaited operation settles. In the source it is a promise that a 2000ms timer
  resolves, so it is always \<open>Fulfilled\<close>; the \<^verbatim>\<open>catch\<close> block is written for a call
  that may reject.
\<close>

datatype settled = Fulfilled | Rejected

text \<open>The statements of the \<^verbatim>\<open>try\<close> block after the \<^verbatim>\<open>await\<close>.\<close>

definition after_await :: "form_state \<Rightarrow> form_state result" where
  \<open>after_await s =
     forEach reset_validation inputs
       (form_reset
         (showNotification ''Message sent successfully!'' ''success''
           (s\<lparr>btn_html := ''<i class="ri-check-line"></i> Message Sent!'',
              btn_background := ''var(--gradient-secondary)''\<rparr>)))\<close>

text \<open>The \<^verbatim>\<open>catch\<close> block.\<close>

definition catch_block :: "form_state \<Rightarrow> form_state" where
  \<open>catch_block s =
     showNotification ''Failed to send message. Please try again.'' ''error''
       (s\<lparr>form_console := form_console s @ [(Error, ''Form submission error:'')],
          btn_html := ''<i class="ri-error-warning-line"></i> Send Failed!'',
          btn_background := ''var(--secondary)''\<rparr>)\<close>

text \<open>
  The rest of the oldest suspended invocation, run when its awaited operation settles:
  the \<^verbatim>\<open>try\<close> block (a rejection throws at the \<^verbatim>\<open>await\<close>), the \<^verbatim>\<open>catch\<close> block when
  anything in it threw, and the \<^verbatim>\<open>finally\<close> block.
\<close>

definition submit_resume :: "settled \<Rightarrow> form_state \<Rightarrow> form_state" where
  "submit_resume outcome s =
     (case awaiting s of
        [] \<Rightarrow> s
      | originalText # rest \<Rightarrow>
          (let s0 = s\<lparr>awaiting := rest\<rparr>;
               tried = (case outcome of Rejected \<Rightarrow> Inl (SubmitError, s0) | Fulfilled \<Rightarrow> after_await s0);
               s1 = (case tried of Inl (e, s') \<Rightarrow> catch_block s' | Inr s' \<Rightarrow> s')
           in s1\<lparr>btn_disabled := False,
                 btn_aria_busy := Some ''false'',
                 restore_timers := restore_timers s1 @ [originalText]\<rparr>))"

text \<open>The callback of the 2000ms timer of the \<^verbatim>\<open>finally\<close> block, oldest timer first.\<close>

definition restore_button :: "form_state \<Rightarrow> form_state" where
  "restore_button s =
     (case restore_timers s of
        [] \<Rightarrow> s
      | originalText # rest \<Rightarrow>
          s\<lparr>btn_html := originalText, btn_background := '''', restore_timers := rest\<rparr>)"

text \<open>
  The predicate of a field on the trimmed value, as \<^verbatim>\<open>validateInput\<close> applies it, and
  the e-mail field's in particular (the second entry of \<open>inputs\<close>).
\<close>

definition field_predicate :: "field \<Rightarrow> js_string \<Rightarrow> bool" where
  "field_predicate item v = validate item (trim v)"

definition email_predicate :: "js_string \<Rightarrow> bool" where
  "email_predicate v = field_predicate (inputs ! 1) v"

text \<open>
  The e-mail shape as the pattern reads: one or more code units other than white space
  and \<^verbatim>\<open>@\<close>, then \<^verbatim>\<open>@\<close>, then one or more such code units, then a dot, then one or more
  such code units, and nothing else.
\<close>

definition email_shape :: "js_string \<Rightarrow> bool" where
  "email_shape s =
     (\<exists>l d t. s = l @ [0x40] @ d @ [0x2E] @ t
        \<and> l \<noteq> [] \<and> d \<noteq> [] \<and> t \<noteq> []
        \<and> list_all not_space_or_at l \<and> list_all not_space_or_at d \<and> list_all not_space_or_at t)"

text \<open>
  What the claims about the form say of a document. \<open>field_value\<close>: the value of the
  control a field's id finds. \<open>all_fields_valid\<close>: every predicate of \<open>inputs\<close> holds on
  the trimmed value of its control. \<open>control_valid\<close>: a control passes the predicate of
  the field it belongs to, if any. \<open>first_invalid_field\<close>: the first control in document
  order that does not.
\<close>

definition field_value :: "string \<Rightarrow> form_state \<Rightarrow> js_string" where
  "field_value i s =
     (case getControlById i s of None \<Rightarrow> [] | Some k \<Rightarrow> ctl_value (controls s ! k))"

definition all_fields_valid :: "form_state \<Rightarrow> bool" where
  "all_fields_valid s =
     list_all (\<lambda>item. field_predicate item (field_value (field_id item) s)) inputs"

definition control_valid :: "control \<Rightarrow> bool" where
  "control_valid c =
     list_all (\<lambda>item. field_id item \<noteq> ctl_id c \<or> field_predicate item (ctl_value c)) inputs"

definition first_invalid_field :: "form_state \<Rightarrow> nat option" where
  "first_invalid_field s = first_index (\<lambda>c. \<not> control_valid c) (controls s)"

text \<open>
  The document the form code is written for. Its layout: the controls have distinct
  ids, lie inside the form and are \<^verbatim>\<open>input\<close> or \<^verbatim>\<open>textarea\<close> elements, and each sits in
  one form group of its own. Beyond the layout: every field of \<open>inputs\<close> has its
  control and its error element; a control that is not a field of \<open>inputs\<close> is not in a
  group marked invalid; there is a notification container and a submit button.
\<close>

definition form_layout :: "form_state \<Rightarrow> bool" where
  "form_layout s =
     (distinct (map ctl_id (controls s))
      \<and> distinct (map ctl_groups (controls s))
      \<and> list_all (\<lambda>c. ctl_in_form c \<and> (ctl_tag c = ''input'' \<or> ctl_tag c = ''textarea'')
                       \<and> length (ctl_groups c) = 1) (controls s))"

definition wf_contact_form :: "form_state \<Rightarrow> bool" where
  "wf_contact_form s =
     (form_layout s
      \<and> list_all (\<lambda>item. field_id item \<in> set (map ctl_id (controls s))
                       \<and> error_text s (errorId item) \<noteq> None) inputs
      \<and> list_all (\<lambda>c. ctl_id c \<in> set (map field_id inputs)
                       \<or> \<not> list_ex (\<lambda>g. g \<in> invalid_groups s) (ctl_groups c)) (controls s)
      \<and> notification_container s
      \<and> btn_present s)"

text \<open>A contact form with a name, a malformed address, a subject and an empty message.\<close>

definition demo_control :: "string \<Rightarrow> string \<Rightarrow> string \<Rightarrow> nat \<Rightarrow> control" where
  "demo_control i tag v g =
     \<lparr>ctl_id = i, ctl_tag = tag, ctl_value = lit v, ctl_default = [],
      ctl_groups = [g], ctl_in_form = True, ctl_aria_invalid = None\<rparr>"

definition demo_form :: "string \<Rightarrow> string \<Rightarrow> string \<Rightarrow> string \<Rightarrow> form_state" where
  "demo_form n e sub m =
     \<lparr>controls = [demo_control ''contactName'' ''input'' n 0,
                  demo_control ''contactEmail'' ''input'' e 1,
                  demo_control ''contactSubject'' ''input'' sub 2,
                  demo_control ''contactMessage'' ''textarea'' m 3],
      invalid_groups = {},
      error_text = [''nameError'' \<mapsto> '''', ''emailError'' \<mapsto> '''',
                    ''subjectError'' \<mapsto> '''', ''messageError'' \<mapsto> ''''],
      notification_container = True,
      notifications = [],
      form_console = [],
      focused = None,
      default_prevented = False,
      btn_present = True,
      btn_html = ''Send Message'',
      btn_disabled = False,
      btn_aria_busy = None,
      btn_background = '''',
      awaiting = [],
      restore_timers = []\<rparr>"

text \<open>
  The form with four valid values as a rejected first submission leaves it, before the
  2000ms timer of that attempt has fired: the button is enabled again and shows the
  failure markup, and the timer that restores \<^verbatim>\<open>Send Message\<close> is pending.
\<close>

definition demo_retry :: form_state where
  \<open>demo_retry =
     \<lparr>controls = [(demo_control ''contactName'' ''input'' ''Ada'' 0)\<lparr>ctl_aria_invalid := Some ''false''\<rparr>,
                  (demo_control ''contactEmail'' ''input'' ''a@b.co'' 1)\<lparr>ctl_aria_invalid := Some ''false''\<rparr>,
                  (demo_control ''contactSubject'' ''input'' ''Hi'' 2)\<lparr>ctl_aria_invalid := Some ''false''\<rparr>,
                  (demo_control ''contactMessage'' ''textarea'' ''Hello'' 3)\<lparr>ctl_aria_invalid := Some ''false''\<rparr>],
      invalid_groups = {},
      error_text = [''nameError'' \<mapsto> '''', ''emailError'' \<mapsto> '''',
                    ''subjectError'' \<mapsto> '''', ''messageError'' \<mapsto> ''''],
      notification_container = True,
      notifications = [(''Failed to send message. Please try again.'', ''error'')],
      form_console = [(Error, ''Form submission error:'')],
      focused = None,
      default_prevented = True,
      btn_present = True,
      btn_html = ''<i class="ri-error-warning-line"></i> Send Failed!'',
      btn_disabled = False,
      btn_aria_busy = Some ''false'',
      btn_background = ''var(--secondary)'',
      awaiting = [],
      restore_timers = [''Send Message'']\<rparr>\<close>

text \<open>
  \<open>validation_only s s'\<close>: the state \<open>s'\<close> differs from \<open>s\<close> at most in the marks that
  validation writes (the \<^verbatim>\<open>aria-invalid\<close> attributes, the invalid groups and the
  texts of the error elements that exist).
\<close>

definition validation_only :: "form_state \<Rightarrow> form_state \<Rightarrow> bool" where
  "validation_only s s' =
     (map (\<lambda>c. c\<lparr>ctl_aria_invalid := None\<rparr>) (controls s')
        = map (\<lambda>c. c\<lparr>ctl_aria_invalid := None\<rparr>) (controls s)
      \<and> dom (error_text s') = dom (error_text s)
      \<and> s'\<lparr>controls := [], invalid_groups := {}, error_text := Map.empty\<rparr>
        = s\<lparr>controls := [], invalid_groups := {}, error_text := Map.empty\<rparr>)"

section \<open>Objects used as dictionaries\<close>

text \<open>
  \<^verbatim>\<open>this.routes\<close> and \<^verbatim>\<open>titles\<close> are plain objects, and the source reads them with
  \<^verbatim>\<open>obj[key]\<close>. Such a read finds the object's own property of that name, or else the
  property of that name that every plain object inherits from \<^verbatim>\<open>Object.prototype\<close>;
  only when there is neither is the result \<^verbatim>\<open>undefined\<close>. An object is the list of its
  own properties in insertion order. The inherited values are functions (and, for
  \<^verbatim>\<open>__proto__\<close>, the prototype object itself): they are truthy and have no property
  named \<^verbatim>\<open>element\<close>.
\<close>

definition object_prototype_keys :: "string list" where
  "object_prototype_keys =
     [''constructor'', ''__defineGetter__'', ''__defineSetter__'', ''hasOwnProperty'',
      ''__lookupGetter__'', ''__lookupSetter__'', ''isPrototypeOf'', ''propertyIsEnumerable'',
      ''toString'', ''valueOf'', ''__proto__'', ''toLocaleString'']"

datatype 'a js_prop = Undefined | Own 'a | Inherited

definition js_get :: "(string \<times> 'a) list \<Rightarrow> string \<Rightarrow> 'a js_prop" where
  "js_get obj k =
     (case map_of obj k of
        Some v \<Rightarrow> Own v
      | None \<Rightarrow> if k \<in> set object_prototype_keys then Inherited else Undefined)"

fun truthy :: "'a js_prop \<Rightarrow> bool" where
  "truthy Undefined = False"
| "truthy (Own v) = True"
| "truthy Inherited = True"

section \<open>Router\<close>

text \<open>
  \<^verbatim>\<open>SPARouter\<close> (main.js, lines 67-266). A route object holds the page element, here the
  id under which \<^verbatim>\<open>registerRoute\<close> found it, and the path.
\<close>

record route_obj =
  element :: string
  path :: string

text \<open>
  The callbacks the router hands to \<^verbatim>\<open>setTimeout\<close>: the one of \<^verbatim>\<open>loadRoute\<close> (100ms),
  which performs the transition and then calls \<^verbatim>\<open>hideLoader\<close>, and the two nested ones
  of \<^verbatim>\<open>hideLoader\<close> (3000ms and 500ms).
\<close>

datatype task = TransitionThenHide string bool | HideLoaderOuter | HideLoaderInner

text \<open>
  A navigation link (an element matching \<^verbatim>\<open>.nav-link, .mobile-nav-link\<close>) and a route
  indicator (\<^verbatim>\<open>.route-dot\<close>), each with its \<^verbatim>\<open>data-route\<close> attribute.
\<close>

record nav_link =
  link_route :: "string option"
  link_active :: bool

record route_dot =
  rdot_route :: "string option"
  rdot_active :: bool
  rdot_aria_selected :: "string option"
  rdot_tabindex :: "string option"

text \<open>
  The router object together with what it reads and writes of the document and the
  window. \<open>element_ids\<close>: the ids that \<^verbatim>\<open>document.getElementById\<close> finds.
  \<open>active_elements\<close>: the ids of the page elements whose class list holds \<^verbatim>\<open>active\<close>.
  \<open>menu_icon\<close>: the class list of the icon inside \<^verbatim>\<open>#mobileMenuBtn\<close>. \<open>history\<close>: the
  entries pushed with \<^verbatim>\<open>history.pushState\<close>, each with its state's route and its URL.
  \<open>timers\<close>: the pending timeouts with their delays. The elements \<^verbatim>\<open>#loader\<close> (with its
  progress bar), \<^verbatim>\<open>#appContainer\<close>, \<^verbatim>\<open>#mobileMenu\<close> and \<^verbatim>\<open>#mobileMenuBtn\<close> (with its
  icon) are taken to exist: the loading screen has used the first two before it
  constructs the router.
\<close>

record app =
  routes :: "(string \<times> route_obj) list"
  currentRoute :: string
  isLoading :: bool
  element_ids :: "string list"
  active_elements :: "string set"
  nav_links :: "nav_link list"
  route_dots :: "route_dot list"
  title :: string
  mobileMenu_active :: bool
  menu_icon :: "string set"
  menu_aria_expanded :: "string option"
  loader_hidden :: bool
  app_loaded :: bool
  progress_animation :: string
  history :: "(string \<times> string) list"
  scrollY :: nat
  console :: "(console_level \<times> string) list"
  timers :: "(nat \<times> task) list"

definition registerRoute :: "string \<Rightarrow> string \<Rightarrow> app \<Rightarrow> app" where
  \<open>registerRoute p elementId s =
     (if elementId \<in> set (element_ids s)
      then s\<lparr>routes := AList.update p \<lparr>element = elementId, path = p\<rparr> (routes s)\<rparr>
      else s\<lparr>console := console s @
             [(Error, ''Element with ID "'' @ elementId @ ''" not found for route "'' @ p @ ''".'')]\<rparr>)\<close>

definition closeMobileMenu :: "app \<Rightarrow> app" where
  "closeMobileMenu s =
     (if mobileMenu_active s
      then s\<lparr>mobileMenu_active := False,
             menu_icon := (if ''ri-close-line'' \<in> menu_icon s
                           then insert ''ri-menu-line'' (menu_icon s - {''ri-close-line''})
                           else menu_icon s),
             menu_aria_expanded := Some ''false''\<rparr>
      else s)"

text \<open>\<^verbatim>\<open>window.scrollTo({ top: 0, behavior: 'smooth' })\<close>, by its end position.\<close>

definition scrollToTop :: "app \<Rightarrow> app" where
  "scrollToTop s = s\<lparr>scrollY := 0\<rparr>"

definition showLoader :: "app \<Rightarrow> app" where
  "showLoader s =
     s\<lparr>isLoading := True, loader_hidden := False, app_loaded := False,
       progress_animation := ''progress 3s ease-in-out''\<rparr>"

definition hideLoader :: "app \<Rightarrow> app" where
  "hideLoader s = s\<lparr>timers := timers s @ [(3000, HideLoaderOuter)]\<rparr>"

definition updateNavigation :: "string \<Rightarrow> app \<Rightarrow> app" where
  "updateNavigation activeRoute s =
     s\<lparr>nav_links := map (\<lambda>l. l\<lparr>link_active := (link_route l = Some activeRoute)\<rparr>) (nav_links s),
       route_dots :=
         map (\<lambda>d. if rdot_route d = Some activeRoute
                   then d\<lparr>rdot_active := True, rdot_aria_selected := Some ''true'',
                          rdot_tabindex := Some ''0''\<rparr>
                   else d\<lparr>rdot_active := False, rdot_aria_selected := Some ''false'',
                          rdot_tabindex := Some ''-1''\<rparr>)
             (route_dots s)\<rparr>"

definition titles :: "(string \<times> string) list" where
  "titles =
     [(''home'', ''Divyanshu Pandey - Professional Portfolio''),
      (''about'', ''About - Divyanshu Pandey''),
      (''skills'', ''Skills - Divyanshu Pandey''),
      (''projects'', ''Projects - Divyanshu Pandey''),
      (''blog'', ''Blog - Divyanshu Pandey''),
      (''education'', ''Education - Divyanshu Pandey''),
      (''contact'', ''Contact - Divyanshu Pandey'')]"

text \<open>
  The text that assigning an inherited value to \<^verbatim>\<open>document.title\<close> gives (as V8 prints
  native functions). The router never gets there: it sets the title for own keys of
  \<^verbatim>\<open>this.routes\<close> only.
\<close>

definition inherited_text :: "string \<Rightarrow> string" where
  "inherited_text k =
     (if k = ''__proto__'' then ''[object Object]''
      else if k = ''constructor'' then ''function Object() { [native code] }''
      else ''function '' @ k @ ''() { [native code] }'')"

definition updatePageTitle :: "string \<Rightarrow> app \<Rightarrow> app" where
  "updatePageTitle route s =
     s\<lparr>title := (case js_get titles route of
                   Own t \<Rightarrow> t
                 | Inherited \<Rightarrow> inherited_text route
                 | Undefined \<Rightarrow> ''Divyanshu Pandey - Professional Portfolio'')\<rparr>"

text \<open>
  The first loop of \<^verbatim>\<open>performRouteTransition\<close>: every registered page element loses the
  class \<^verbatim>\<open>active\<close>.
\<close>

definition hide_all_pages :: "app \<Rightarrow> app" where
  "hide_all_pages s =
     s\<lparr>active_elements := fold (\<lambda>routeObj act. act - {element routeObj}) (map snd (routes s))
                             (active_elements s)\<rparr>"

text \<open>The branch of \<^verbatim>\<open>performRouteTransition\<close> for a route object that was found.\<close>

definition show_page :: "string \<Rightarrow> route_obj \<Rightarrow> bool \<Rightarrow> app \<Rightarrow> app" where
  "show_page route routeObj pushState s =
     (let s1 = s\<lparr>active_elements := insert (element routeObj) (active_elements s),
                 currentRoute := route\<rparr>;
          s2 = (if pushState then s1\<lparr>history := history s1 @ [(route, ''#'' @ route)]\<rparr> else s1)
      in updatePageTitle route (scrollToTop (closeMobileMenu (updateNavigation route s2))))"

text \<open>
  \<^verbatim>\<open>performRouteTransition\<close>. For a key that is only inherited the test
  \<^verbatim>\<open>this.routes[route]\<close> succeeds and reading \<^verbatim>\<open>classList\<close> of the missing \<^verbatim>\<open>element\<close>
  throws. For an unknown key the warning is logged and \<^verbatim>\<open>loadRoute('home', true, false)\<close>
  called, which calls this function again; when \<^verbatim>\<open>home\<close> itself is unknown the calls
  never return (an engine ends them with a \<^verbatim>\<open>RangeError\<close> when its stack is full), and
  the function has no result (\<open>None\<close>).
\<close>

definition not_found_warning :: "string \<Rightarrow> string" where
  \<open>not_found_warning route = ''Route "'' @ route @ ''" not found. Redirecting to home.''\<close>

partial_function (option) performRouteTransition :: "string \<Rightarrow> bool \<Rightarrow> app \<Rightarrow> app result option" where
  \<open>performRouteTransition route pushState s =
     (let s1 = hide_all_pages s
      in case js_get (routes s1) route of
           Own routeObj \<Rightarrow> Some (Inr (show_page route routeObj pushState s1))
         | Inherited \<Rightarrow> Some (Inl (TypeError, s1))
         | Undefined \<Rightarrow>
             performRouteTransition ''home'' True
               (s1\<lparr>console := console s1 @ [(Warn, not_found_warning route)]\<rparr>))\<close>

declare performRouteTransition.simps [code]

definition loadRoute :: "string \<Rightarrow> bool \<Rightarrow> bool \<Rightarrow> app \<Rightarrow> app result option" where
  "loadRoute route pushState showLoading s =
     (if showLoading
      then (let s1 = showLoader s
            in Some (Inr (s1\<lparr>timers := timers s1 @ [(100, TransitionThenHide route pushState)]\<rparr>)))
      else performRouteTransition route pushState s)"

definition navigateTo :: "string \<Rightarrow> app \<Rightarrow> app result option" where
  "navigateTo route s =
     (if truthy (js_get (routes s) route) \<and> \<not> isLoading s \<and> currentRoute s \<noteq> route
      then loadRoute route True True s
      else if currentRoute s = route
      then Some (Inr (closeMobileMenu (scrollToTop s)))
      else Some (Inr s))"

text \<open>The callbacks of the timers.\<close>

fun run_task :: "task \<Rightarrow> app \<Rightarrow> app result option" where
  "run_task (TransitionThenHide route pushState) s =
     (case performRouteTransition route pushState s of
        None \<Rightarrow> None
      | Some (Inl e) \<Rightarrow> Some (Inl e)
      | Some (Inr s1) \<Rightarrow> Some (Inr (hideLoader s1)))"
| "run_task HideLoaderOuter s =
     Some (Inr (s\<lparr>loader_hidden := True, timers := timers s @ [(500, HideLoaderInner)]\<rparr>))"
| "run_task HideLoaderInner s =
     Some (Inr (s\<lparr>app_loaded := True, isLoading := False\<rparr>))"

text \<open>
  What the environment does to the router: a click on an element with a \<^verbatim>\<open>data-route\<close>
  attribute, a \<^verbatim>\<open>popstate\<close> event (with \<^verbatim>\<open>e.state?.route\<close>, \<open>None\<close> when the state is
  \<^verbatim>\<open>null\<close> or has no route), and the firing of the pending timer at a given position
  (which of the pending timers fires next is left to the environment).
\<close>

datatype event = Click string | PopState "string option" | TimerFires nat

fun handle :: "event \<Rightarrow> app \<Rightarrow> app result option" where
  "handle (Click route) s = navigateTo route s"
| "handle (PopState st) s =
     loadRoute (case st of None \<Rightarrow> ''home'' | Some r \<Rightarrow> if r = [] then ''home'' else r) False False s"
| "handle (TimerFires n) s =
     (if n < length (timers s)
      then run_task (snd (timers s ! n)) (s\<lparr>timers := take n (timers s) @ drop (Suc n) (timers s)\<rparr>)
      else Some (Inr s))"

text \<open>
  The constructor with \<^verbatim>\<open>init\<close>, on the document as the loading screen left it and the
  location's hash.
\<close>

definition page_table :: "(string \<times> string) list" where
  "page_table =
     [(''home'', ''home-page''), (''about'', ''about-page''), (''skills'', ''skills-page''),
      (''projects'', ''projects-page''), (''blog'', ''blog-page''),
      (''education'', ''education-page''), (''contact'', ''contact-page'')]"

definition SPARouter :: "app \<Rightarrow> string \<Rightarrow> app result option" where
  "SPARouter doc location_hash =
     (let s0 = doc\<lparr>routes := [], currentRoute := ''home'', isLoading := False\<rparr>;
          s1 = fold (\<lambda>(p, elementId). registerRoute p elementId) page_table s0;
          initialHash = drop 1 location_hash
      in loadRoute (if truthy (js_get (routes s1) initialHash) then initialHash else currentRoute s1)
           False False s1)"

text \<open>
  The states the router can be in: the one the constructor leaves (also when it threw:
  the listeners are installed before the first route is loaded), and those after any
  event since.
\<close>

inductive reachable :: "app \<Rightarrow> string \<Rightarrow> app \<Rightarrow> bool" for doc :: app and location_hash :: string where
  constructed: "SPARouter doc location_hash = Some r \<Longrightarrow> reachable doc location_hash (state_of r)"
| handled: "reachable doc location_hash s \<Longrightarrow> handle ev s = Some r
             \<Longrightarrow> reachable doc location_hash (state_of r)"

text \<open>The registered routes whose page element carries the class \<^verbatim>\<open>active\<close>.\<close>

definition active_routes :: "app \<Rightarrow> string list" where
  "active_routes s = map fst (filter (\<lambda>(p, routeObj). element routeObj \<in> active_elements s) (routes s))"

text \<open>
  A document with all seven pages, the home page marked active in the markup, one
  navigation link and one indicator per route, and the mobile menu open.
\<close>

definition demo_doc :: app where
  "demo_doc =
     \<lparr>routes = [], currentRoute = [], isLoading = False,
      element_ids = map snd page_table,
      active_elements = {''home-page''},
      nav_links = map (\<lambda>(p, e). \<lparr>link_route = Some p, link_active = False\<rparr>) page_table,
      route_dots = map (\<lambda>(p, e). \<lparr>rdot_route = Some p, rdot_active = False,
                                  rdot_aria_selected = None, rdot_tabindex = None\<rparr>) page_table,
      title = ''Portfolio'',
      mobileMenu_active = True,
      menu_icon = {''ri-close-line''},
      menu_aria_expanded = Some ''true'',
      loader_hidden = True, app_loaded = True, progress_animation = [],
      history = [], scrollY = 250, console = [], timers = []\<rparr>"

text \<open>The router on that document, freshly constructed, and after a \<^verbatim>\<open>popstate\<close> to \<^verbatim>\<open>about\<close>.\<close>

definition demo_home :: app where
  "demo_home = (case SPARouter demo_doc [] of Some r \<Rightarrow> state_of r | None \<Rightarrow> demo_doc)"

definition demo_about :: app where
  "demo_about = (case handle (PopState (Some ''about'')) demo_home of
                   Some r \<Rightarrow> state_of r | None \<Rightarrow> demo_home)"

text \<open>
  The registry that \<^verbatim>\<open>init\<close> builds on a document with the given element ids: the entries
  of the page table whose element exists, in the table's order.
\<close>

definition registry :: "string list \<Rightarrow> (string \<times> route_obj) list" where
  "registry ids =
     map (\<lambda>(p, e). (p, \<lparr>element = e, path = p\<rparr>)) (filter (\<lambda>(p, e). e \<in> set ids) page_table)"

text \<open>
  A sequence of events, handled one after the other for as long as the handlers return
  normally. \<open>plain_event\<close>: the event is not a click whose route is one of the inherited
  names. \<open>pending_registered\<close>: every pending transition is to a registered route.
\<close>

fun run_events :: "event list \<Rightarrow> app \<Rightarrow> app result option" where
  "run_events [] s = Some (Inr s)"
| "run_events (ev # evs) s =
     (case handle ev s of
        None \<Rightarrow> None
      | Some (Inl e) \<Rightarrow> Some (Inl e)
      | Some (Inr s1) \<Rightarrow> run_events evs s1)"

fun plain_event :: "event \<Rightarrow> bool" where
  "plain_event (Click route) = (route \<notin> set object_prototype_keys)"
| "plain_event (PopState st) = True"
| "plain_event (TimerFires n) = True"

fun registered_task :: "(string \<times> route_obj) list \<Rightarrow> task \<Rightarrow> bool" where
  "registered_task rs (TransitionThenHide route pushState) = (map_of rs route \<noteq> None)"
| "registered_task rs HideLoaderOuter = True"
| "registered_task rs HideLoaderInner = True"

definition pending_registered :: "app \<Rightarrow> bool" where
  "pending_registered s = list_all (\<lambda>(d, t). registered_task (routes s) t) (timers s)"

section \<open>Properties of the regular expression matcher\<close>

lemma conc_Nil: "[] \<in> conc A B \<longleftrightarrow> [] \<in> A \<and> [] \<in> B"
  by (auto simp: conc_def)

lemma conc_Cons:
  "c # w \<in> conc A B \<longleftrightarrow>
     (\<exists>u v. w = u @ v \<and> c # u \<in> A \<and> v \<in> B) \<or> ([] \<in> A \<and> c # w \<in> B)"
proof
  assume "c # w \<in> conc A B"
  then obtain x y where xy: "c # w = x @ y" "x \<in> A" "y \<in> B"
    by (auto simp: conc_def)
  show "(\<exists>u v. w = u @ v \<and> c # u \<in> A \<and> v \<in> B) \<or> ([] \<in> A \<and> c # w \<in> B)"
  proof (cases x)
    case Nil
    with xy show ?thesis by simp
  next
    case (Cons a u)
    with xy have "w = u @ y" "c # u \<in> A" by simp_all
    with xy(3) show ?thesis by blast
  qed
next
  assume "(\<exists>u v. w = u @ v \<and> c # u \<in> A \<and> v \<in> B) \<or> ([] \<in> A \<and> c # w \<in> B)"
  then show "c # w \<in> conc A B"
  proof
    assume "\<exists>u v. w = u @ v \<and> c # u \<in> A \<and> v \<in> B"
    then obtain u v where "w = u @ v" "c # u \<in> A" "v \<in> B" by blast
    then have "c # w = (c # u) @ v" by simp
    with \<open>c # u \<in> A\<close> \<open>v \<in> B\<close> show ?thesis unfolding conc_def by blast
  next
    assume "[] \<in> A \<and> c # w \<in> B"
    then have "c # w = [] @ (c # w)" "[] \<in> A" "c # w \<in> B" by simp_all
    then show ?thesis unfolding conc_def by blast
  qed
qed

lemma star_Cons_split:
  "x \<in> star A \<Longrightarrow> x = c # w \<Longrightarrow> \<exists>u v. w = u @ v \<and> c # u \<in> A \<and> v \<in> star A"
proof (induction arbitrary: w rule: star.induct)
  case star_empty
  then show ?case by simp
next
  case (star_more u v)
  show ?case
  proof (cases u)
    case Nil
    with star_more show ?thesis by simp
  next
    case (Cons a u')
    with star_more.prems have "w = u' @ v" "a = c" by simp_all
    with star_more.hyps Cons show ?thesis by blast
  qed
qed

lemma star_Cons:
  "c # w \<in> star A \<longleftrightarrow> (\<exists>u v. w = u @ v \<and> c # u \<in> A \<and> v \<in> star A)"
proof
  assume "c # w \<in> star A"
  then show "\<exists>u v. w = u @ v \<and> c # u \<in> A \<and> v \<in> star A"
    by (rule star_Cons_split) simp
next
  assume "\<exists>u v. w = u @ v \<and> c # u \<in> A \<and> v \<in> star A"
  then obtain u v where "w = u @ v" "c # u \<in> A" "v \<in> star A" by blast
  then show "c # w \<in> star A"
    using star_more [of "c # u" A v] by simp
qed

lemma nullable_lang: "nullable r \<longleftrightarrow> [] \<in> lang r"
  by (induction r) (auto simp: conc_Nil intro: star_empty)

lemma deriv_lang: "w \<in> lang (deriv c r) \<longleftrightarrow> c # w \<in> lang r"
proof (induction r arbitrary: w)
  case (RSeq r s)
  have "w \<in> conc (lang (deriv c r)) (lang s) \<longleftrightarrow>
        (\<exists>u v. w = u @ v \<and> c # u \<in> lang r \<and> v \<in> lang s)"
    by (auto simp: conc_def RSeq)
  then show ?case
    by (auto simp: conc_Cons nullable_lang RSeq)
next
  case (RStar r)
  have "w \<in> lang (deriv c (RStar r)) \<longleftrightarrow>
        (\<exists>u v. w = u @ v \<and> u \<in> lang (deriv c r) \<and> v \<in> star (lang r))"
    by (auto simp: conc_def)
  then show ?case
    by (simp add: RStar star_Cons)
next
  case (RPlus r)
  have "c # w \<in> lang (RPlus r) \<longleftrightarrow>
        (\<exists>u v. w = u @ v \<and> c # u \<in> lang r \<and> v \<in> star (lang r))"
    by (auto simp: conc_Cons star_Cons)
  moreover have "w \<in> lang (deriv c (RPlus r)) \<longleftrightarrow>
        (\<exists>u v. w = u @ v \<and> u \<in> lang (deriv c r) \<and> v \<in> star (lang r))"
    by (auto simp: conc_def)
  ultimately show ?case
    by (simp add: RPlus)
qed auto

lemma fold_deriv_lang: "w \<in> lang (fold deriv s r) \<longleftrightarrow> s @ w \<in> lang r"
  by (induction s arbitrary: r) (simp_all add: deriv_lang)

lemma regexp_test_lang: "regexp_test r s \<longleftrightarrow> s \<in> lang r"
  by (simp add: regexp_test_def nullable_lang fold_deriv_lang)

lemma star_class: "star {[c] | c. p c} = {w. list_all p w}"
proof (intro set_eqI iffI)
  fix w assume "w \<in> star {[c] | c. p c}"
  then show "w \<in> {w. list_all p w}"
    by (induction rule: star.induct) auto
next
  fix w assume "w \<in> {w. list_all p w}"
  then have "list_all p w" by simp
  then show "w \<in> star {[c] | c. p c}"
  proof (induction w)
    case Nil
    show ?case by (rule star_empty)
  next
    case (Cons c w)
    then have "[c] \<in> {[c] | c. p c}" "w \<in> star {[c] | c. p c}" by simp_all
    then have "[c] @ w \<in> star {[c] | c. p c}" by (rule star_more)
    then show ?case by simp
  qed
qed

lemma lang_plus_class: "lang (RPlus (RClass p)) = {w. w \<noteq> [] \<and> list_all p w}"
proof (intro set_eqI iffI)
  fix w assume "w \<in> lang (RPlus (RClass p))"
  then show "w \<in> {w. w \<noteq> [] \<and> list_all p w}"
    by (auto simp: star_class conc_def)
next
  fix w assume "w \<in> {w. w \<noteq> [] \<and> list_all p w}"
  then obtain c u where "w = [c] @ u" "p c" "list_all p u"
    by (cases w) auto
  then show "w \<in> lang (RPlus (RClass p))"
    unfolding lang.simps star_class conc_def by blast
qed

lemma conc_I: "u \<in> A \<Longrightarrow> v \<in> B \<Longrightarrow> u @ v \<in> conc A B"
  unfolding conc_def by blast

lemma conc_E: "w \<in> conc A B \<Longrightarrow> (\<And>u v. w = u @ v \<Longrightarrow> u \<in> A \<Longrightarrow> v \<in> B \<Longrightarrow> thesis) \<Longrightarrow> thesis"
  unfolding conc_def by blast

lemma lang_email_regexp: "s \<in> lang email_regexp \<longleftrightarrow> email_shape s"
proof -
  let ?P = "{w. w \<noteq> [] \<and> list_all not_space_or_at w}"
  have L: "lang email_regexp = conc ?P (conc {[0x40]} (conc ?P (conc {[0x2E]} ?P)))"
    unfolding email_regexp_def lang.simps(4) lang_plus_class
    by simp
  show ?thesis
  proof
    assume "s \<in> lang email_regexp"
    then have "s \<in> conc ?P (conc {[0x40]} (conc ?P (conc {[0x2E]} ?P)))"
      by (simp only: L)
    then obtain l r1 where 1: "s = l @ r1" "l \<in> ?P" "r1 \<in> conc {[0x40]} (conc ?P (conc {[0x2E]} ?P))"
      by (rule conc_E)
    from 1(3) obtain a r2 where 2: "r1 = a @ r2" "a \<in> {[0x40]}" "r2 \<in> conc ?P (conc {[0x2E]} ?P)"
      by (rule conc_E)
    from 2(3) obtain d r3 where 3: "r2 = d @ r3" "d \<in> ?P" "r3 \<in> conc {[0x2E]} ?P"
      by (rule conc_E)
    from 3(3) obtain b t where 4: "r3 = b @ t" "b \<in> {[0x2E]}" "t \<in> ?P"
      by (rule conc_E)
    from 1 2 3 4 have "s = l @ [0x40] @ d @ [0x2E] @ t" by simp
    with 1(2) 3(2) 4(3) show "email_shape s"
      unfolding email_shape_def by blast
  next
    assume "email_shape s"
    then obtain l d t where s: "s = l @ [0x40] @ d @ [0x2E] @ t" "l \<in> ?P" "d \<in> ?P" "t \<in> ?P"
      unfolding email_shape_def by blast
    have a: "[0x2E] @ t \<in> conc {[0x2E]} ?P"
      by (rule conc_I [OF _ s(4)]) simp
    have b: "d @ [0x2E] @ t \<in> conc ?P (conc {[0x2E]} ?P)"
      by (rule conc_I [OF s(3) a])
    have c: "[0x40] @ d @ [0x2E] @ t \<in> conc {[0x40]} (conc ?P (conc {[0x2E]} ?P))"
      by (rule conc_I [OF _ b]) simp
    have "l @ [0x40] @ d @ [0x2E] @ t \<in> conc ?P (conc {[0x40]} (conc ?P (conc {[0x2E]} ?P)))"
      by (rule conc_I [OF s(2) c])
    then show "s \<in> lang email_regexp"
      by (simp only: L s(1))
  qed
qed

lemma email_predicate_test: "email_predicate v = regexp_test email_regexp (trim v)"
  by (simp add: email_predicate_def field_predicate_def inputs_def)

lemma email_trimmed_example: "email_predicate (lit ''  a@b.co '')"
  by (simp add: email_predicate_test trim_def lit_def is_space_def regexp_test_def
      email_regexp_def not_space_or_at_def)

text \<open>
  Claim C3. For every string, the predicate of the e-mail field (the second entry of
  \<open>inputs\<close>, applied by \<^verbatim>\<open>validateInput\<close> to the trimmed value) holds exactly when the
  trimmed value has the shape the pattern \<^verbatim>\<open>^[^\s@]+@[^\s@]+\.[^\s@]+$\<close> describes. It
  accepts \<^verbatim>\<open>a@b.co\<close> and rejects \<^verbatim>\<open>a@b\<close>, the empty string and \<^verbatim>\<open>a b@c.com\<close>.
\<close>

theorem email_predicate_is_pattern_on_trimmed:
  "(email_predicate v \<longleftrightarrow> email_shape (trim v))
   \<and> email_predicate (lit ''a@b.co'')
   \<and> \<not> email_predicate (lit ''a@b'')
   \<and> \<not> email_predicate (lit '''')
   \<and> \<not> email_predicate (lit ''a b@c.com'')"
proof -
  have "email_predicate v \<longleftrightarrow> email_shape (trim v)"
    by (simp only: email_predicate_test regexp_test_lang lang_email_regexp)
  moreover have "email_predicate (lit ''a@b.co'')"
    by (simp add: email_predicate_test trim_def lit_def is_space_def regexp_test_def
        email_regexp_def not_space_or_at_def)
  moreover have "\<not> email_predicate (lit ''a@b'')"
    by (simp add: email_predicate_test trim_def lit_def is_space_def regexp_test_def
        email_regexp_def not_space_or_at_def)
  moreover have "\<not> email_predicate (lit '''')"
    by (simp add: email_predicate_test trim_def lit_def is_space_def regexp_test_def
        email_regexp_def not_space_or_at_def)
  moreover have "\<not> email_predicate (lit ''a b@c.com'')"
    by (simp add: email_predicate_test trim_def lit_def is_space_def regexp_test_def
        email_regexp_def not_space_or_at_def)
  ultimately show ?thesis by blast
qed

section \<open>Properties of the loading text\<close>

lemma text_ticks_upto_4:
  "n \<le> 4 \<Longrightarrow> text_ticks n (LoadingScreen (Some t0)) =
     (LoadingScreen (Some t0))
       \<lparr>loaderText := Some (if n = 0 then t0 else loadingTexts (LoadingScreen (Some t0)) ! (n - 1)),
        currentTextIndex := n\<rparr>"
proof (induction n)
  case 0
  show ?case by (simp add: LoadingScreen_def)
next
  case (Suc n)
  then have "n < 4" by simp
  with Suc show ?case
    by (simp add: text_tick_def LoadingScreen_def Let_def)
qed

lemma text_ticks_from_5:
  "text_ticks (n + 5) (LoadingScreen (Some t0)) =
     (LoadingScreen (Some t0))
       \<lparr>loaderText := Some ''Finalizing Experience...'', currentTextIndex := 4, textInterval := False\<rparr>"
proof (induction n)
  case 0
  have "text_ticks 5 (LoadingScreen (Some t0)) =
        (let l1 = text_ticks 4 (LoadingScreen (Some t0))
         in if textInterval l1 then state_of (text_tick l1) else l1)"
    by (simp add: eval_nat_numeral)
  also have "text_ticks 4 (LoadingScreen (Some t0)) = (LoadingScreen (Some t0))
       \<lparr>loaderText := Some (loadingTexts (LoadingScreen (Some t0)) ! 3), currentTextIndex := 4\<rparr>"
    using text_ticks_upto_4 [of 4 t0] by simp
  finally show ?case
    by (simp add: text_tick_def LoadingScreen_def)
next
  case (Suc n)
  have "text_ticks (Suc n + 5) (LoadingScreen (Some t0)) =
        (let l1 = text_ticks (n + 5) (LoadingScreen (Some t0))
         in if textInterval l1 then state_of (text_tick l1) else l1)"
    by (simp only: add_Suc text_ticks.simps)
  also have "\<dots> = (LoadingScreen (Some t0))
       \<lparr>loaderText := Some ''Finalizing Experience...'', currentTextIndex := 4, textInterval := False\<rparr>"
    by (simp only: Suc) simp
  finally show ?case .
qed

text \<open>
  Claim C5, evaluated on the code. With the text element present, the texts on display
  after the first five periods are the first four entries of the list and then the
  fourth again; the interval is still set after the fourth period and cleared by the
  fifth callback; from then on nothing changes. The fifth entry, \<^verbatim>\<open>Ready!\<close>, is never
  assigned: whatever is displayed is the text the document started with or one of the
  first four entries.
\<close>

theorem loading_text_stops_before_last:
  "map (\<lambda>n. loaderText (text_ticks n (LoadingScreen (Some t0)))) [1, 2, 3, 4, 5] =
     [Some ''Loading Portfolio...'', Some ''Initializing Components...'',
      Some ''Setting up Navigation...'', Some ''Finalizing Experience...'',
      Some ''Finalizing Experience...'']
   \<and> textInterval (text_ticks 4 (LoadingScreen (Some t0)))
   \<and> \<not> textInterval (text_ticks 5 (LoadingScreen (Some t0)))
   \<and> (\<forall>n. loaderText (text_ticks n (LoadingScreen (Some t0)))
           \<in> set (map Some (t0 # take 4 (loadingTexts (LoadingScreen (Some t0))))))
   \<and> ''Ready!'' \<notin> set (take 4 (loadingTexts (LoadingScreen (Some t0))))
   \<and> loadingTexts (LoadingScreen (Some t0)) ! 4 = ''Ready!''"
proof -
  have five: "text_ticks 5 (LoadingScreen (Some t0)) =
     (LoadingScreen (Some t0))
       \<lparr>loaderText := Some ''Finalizing Experience...'', currentTextIndex := 4, textInterval := False\<rparr>"
    using text_ticks_from_5 [of 0 t0] by simp
  have all: "loaderText (text_ticks n (LoadingScreen (Some t0)))
           \<in> set (map Some (t0 # take 4 (loadingTexts (LoadingScreen (Some t0)))))" for n
  proof (cases "n \<le> 4")
    case True
    from text_ticks_upto_4 [OF this, of t0]
    have "loaderText (text_ticks n (LoadingScreen (Some t0))) =
        Some (if n = 0 then t0 else loadingTexts (LoadingScreen (Some t0)) ! (n - 1))"
      by simp
    moreover from True have "n = 0 \<or> n = 1 \<or> n = 2 \<or> n = 3 \<or> n = 4" by arith
    ultimately show ?thesis
      by (auto simp: LoadingScreen_def)
  next
    case False
    then have "n = (n - 5) + 5" by simp
    then obtain m where "n = m + 5" ..
    then show ?thesis
      by (simp only: text_ticks_from_5) (simp add: LoadingScreen_def)
  qed
  have upto: "loaderText (text_ticks n (LoadingScreen (Some t0))) =
        Some (if n = 0 then t0 else loadingTexts (LoadingScreen (Some t0)) ! (n - 1))
      \<and> textInterval (text_ticks n (LoadingScreen (Some t0)))" if "n \<le> 4" for n
    using text_ticks_upto_4 [OF that, of t0] by (simp add: LoadingScreen_def)
  have shown: "map (\<lambda>n. loaderText (text_ticks n (LoadingScreen (Some t0)))) [1, 2, 3, 4, 5] =
     [Some ''Loading Portfolio...'', Some ''Initializing Components...'',
      Some ''Setting up Navigation...'', Some ''Finalizing Experience...'',
      Some ''Finalizing Experience...'']"
    using upto [of 1] upto [of 2] upto [of 3] upto [of 4] five
    by (simp add: LoadingScreen_def)
  have stop: "textInterval (text_ticks 4 (LoadingScreen (Some t0)))
      \<and> \<not> textInterval (text_ticks 5 (LoadingScreen (Some t0)))"
    using upto [of 4] five by simp
  have last: "''Ready!'' \<notin> set (take 4 (loadingTexts (LoadingScreen (Some t0))))
      \<and> loadingTexts (LoadingScreen (Some t0)) ! 4 = ''Ready!''"
    by (simp add: LoadingScreen_def)
  from shown stop all last show ?thesis by blast
qed

section \<open>Properties of the carousel\<close>

lemma forEach_append: "forEach f (xs @ ys) s = and_then (forEach f xs s) (forEach f ys)"
proof (induction xs arbitrary: s)
  case Nil
  show ?case by simp
next
  case (Cons a xs)
  show ?case by (cases "f a s") (simp_all add: Cons.IH)
qed

lemma map_take_step:
  "k < length xs \<Longrightarrow> (map f (take k xs) @ drop k xs)[k := f ((map f (take k xs) @ drop k xs) ! k)]
     = map f (take (Suc k) xs) @ drop (Suc k) xs"
  by (simp add: take_Suc_conv_app_nth list_update_append nth_append Cons_nth_drop_Suc [symmetric])

lemma hide_loop:
  "k \<le> length (slides c) \<Longrightarrow> k \<le> length (dots c) \<Longrightarrow>
   forEach hide_slide [0..<k] c =
     Inr (c\<lparr>slides := map hidden_slide (take k (slides c)) @ drop k (slides c),
            dots := map unselected_dot (take k (dots c)) @ drop k (dots c)\<rparr>)"
proof (induction k)
  case 0
  then show ?case by simp
next
  case (Suc k)
  then show ?case
    by (simp add: forEach_append hide_slide_def Let_def map_take_step)
qed

lemma filter_upt_single:
  "i < n \<Longrightarrow> P i \<Longrightarrow> (\<And>j. j < n \<Longrightarrow> j \<noteq> i \<Longrightarrow> \<not> P j) \<Longrightarrow> filter P [0..<n] = [i]"
proof -
  assume a: "i < n" "P i" "\<And>j. j < n \<Longrightarrow> j \<noteq> i \<Longrightarrow> \<not> P j"
  have split: "[0..<n] = [0..<i] @ i # [Suc i..<n]"
    using a(1) by (metis le_add_diff_inverse less_imp_le_nat upt_add_eq_append upt_conv_Cons zero_le)
  have "filter P [0..<i] = []" using a by (auto simp: filter_empty_conv)
  moreover have "filter P [Suc i..<n] = []" using a by (auto simp: filter_empty_conv)
  ultimately show ?thesis using a(2) by (simp add: split)
qed

lemma showSlide_ok:
  assumes "i < length (slides c)" "length (slides c) \<le> length (dots c)"
  shows "\<exists>c'. showSlide (Num (int i)) c = Inr c' \<and> active_slides c' = [i]
           \<and> length (slides c') = length (slides c) \<and> length (dots c') = length (dots c)
           \<and> currentSlide c' = currentSlide c \<and> autoAdvanceInterval c' = autoAdvanceInterval c"
proof -
  have "active_slides
     (c\<lparr>slides := (map hidden_slide (slides c))[i := shown_slide (map hidden_slide (slides c) ! i)], dots := ds\<rparr>) = [i]" for ds
    unfolding active_slides_def using assms(1)
    by (intro filter_upt_single) (simp_all add: shown_slide_def hidden_slide_def)
  then show ?thesis
    using assms by (simp add: showSlide_def hide_loop Let_def)
qed


lemma init_ok:
  assumes "0 < length sls" "length sls \<le> length ds"
  shows "\<exists>c0. initTestimonialsCarousel sls ds = Inr c0 \<and> active_slides c0 = [0]
           \<and> length (slides c0) = length sls \<and> length (dots c0) = length ds
           \<and> currentSlide c0 = Num 0 \<and> autoAdvanceInterval c0"
  using showSlide_ok [of 0 "\<lparr>slides = sls, dots = ds, currentSlide = Num 0, autoAdvanceInterval = False\<rparr>"] assms
  by (auto simp: initTestimonialsCarousel_def startAutoAdvance_def active_slides_def)

lemma hide_loop_throws:
  assumes "length (dots c) < length (slides c)"
  shows "\<exists>e. forEach hide_slide [0..<length (slides c)] c = Inl e"
proof -
  let ?k = "length (dots c)"
  have "[0..<length (slides c)] = [0..<?k] @ ?k # [Suc ?k..<length (slides c)]"
    using assms by (metis le_add_diff_inverse less_imp_le_nat upt_add_eq_append upt_conv_Cons zero_le)
  then show ?thesis
    using assms by (simp add: forEach_append hide_loop hide_slide_def Let_def)
qed

lemma init_returns:
  assumes "initTestimonialsCarousel sls ds = Inr c0"
  shows "0 < length sls \<and> length sls \<le> length ds"
proof -
  let ?c = "\<lparr>slides = sls, dots = ds, currentSlide = Num 0, autoAdvanceInterval = False\<rparr>"
  have "length sls \<le> length ds"
  proof (rule ccontr)
    assume "\<not> length sls \<le> length ds"
    then have "length (dots ?c) < length (slides ?c)" by simp
    from hide_loop_throws [OF this] assms show False
      by (auto simp: initTestimonialsCarousel_def showSlide_def)
  qed
  moreover have "0 < length sls"
  proof (rule ccontr)
    assume "\<not> 0 < length sls"
    with assms show False
      by (simp add: initTestimonialsCarousel_def showSlide_def)
  qed
  ultimately show ?thesis by simp
qed

lemma autoAdvance_ok:
  assumes "currentSlide c = Num (int i)" "0 < length (slides c)" "length (slides c) \<le> length (dots c)"
  shows "\<exists>c'. autoAdvance c = Inr c' \<and> active_slides c' = [Suc i mod length (slides c)]
           \<and> length (slides c') = length (slides c) \<and> length (dots c') = length (dots c)
           \<and> currentSlide c' = Num (int (Suc i mod length (slides c))) \<and> autoAdvanceInterval c' = autoAdvanceInterval c"
proof -
  let ?n = "length (slides c)"
  let ?c1 = "c\<lparr>currentSlide := Num (int (Suc i mod ?n))\<rparr>"
  have r: "js_rem (js_add (currentSlide c) (Num 1)) (Num (int ?n)) = Num (int (Suc i mod ?n))"
    using assms by (simp add: zmod_int sgn_if add.commute)
  have "Suc i mod ?n < length (slides ?c1)" using assms by simp
  from showSlide_ok [OF this] assms(3) show ?thesis
    by (simp add: autoAdvance_def r Let_def)
qed

lemma advances_ok:
  assumes "currentSlide c = Num 0" "0 < length (slides c)" "length (slides c) \<le> length (dots c)"
    "autoAdvanceInterval c" "active_slides c = [0]"
  shows "\<exists>c'. advances n c = Inr c' \<and> active_slides c' = [n mod length (slides c)]
           \<and> length (slides c') = length (slides c) \<and> length (dots c') = length (dots c)
           \<and> currentSlide c' = Num (int (n mod length (slides c))) \<and> autoAdvanceInterval c'"
proof (induction n)
  case 0
  then show ?case using assms by simp
next
  case (Suc n)
  then obtain c1 where c1: "advances n c = Inr c1" "length (slides c1) = length (slides c)"
    "length (dots c1) = length (dots c)" "currentSlide c1 = Num (int (n mod length (slides c)))"
    "autoAdvanceInterval c1" by blast
  have "0 < length (slides c1)" "length (slides c1) \<le> length (dots c1)"
    using c1 assms by simp_all
  from autoAdvance_ok [OF c1(4) this] c1 show ?case
    by (auto simp: mod_Suc_eq)
qed



lemma three_init: "initTestimonialsCarousel three_slides three_dots = Inr three_started"
  by (simp add: initTestimonialsCarousel_def three_slides_def three_dots_def showSlide_def
      hide_slide_def Let_def upt_rec numeral_3_eq_3 hidden_slide_def shown_slide_def
      unselected_dot_def selected_dot_def startAutoAdvance_def three_started_def)

text \<open>
  Claim C6. Whenever the carousel has at least one slide and its initialisation returned
  (so that the interval was started, with slide 0 shown), \<open>n\<close> firings of the
  auto-advance interval all return, and afterwards \<open>currentSlide\<close> is \<open>n mod slideCount\<close>
  and the slide at that index is the only one that carries the \<^verbatim>\<open>active\<close> class.
\<close>

theorem carousel_index_after_advances:
  assumes "0 < length sls" and "initTestimonialsCarousel sls ds = Inr c0"
  shows "currentSlide c0 = Num 0 \<and>
         (\<exists>cn. advances n c0 = Inr cn
            \<and> currentSlide cn = Num (int (n mod length sls))
            \<and> active_slides cn = [n mod length sls])"
proof -
  from init_returns [OF assms(2)] have len: "length sls \<le> length ds" by simp
  from init_ok [OF assms(1) len] assms(2)
  have c0: "active_slides c0 = [0]" "length (slides c0) = length sls"
    "length (dots c0) = length ds" "currentSlide c0 = Num 0" "autoAdvanceInterval c0"
    by auto
  have "0 < length (slides c0)" "length (slides c0) \<le> length (dots c0)"
    using c0 assms(1) len by simp_all
  from advances_ok [OF c0(4) this c0(5) c0(1), of n] c0 show ?thesis
    by auto
qed

theorem carousel_index_after_advances_witness:
  "0 < length three_slides
   \<and> initTestimonialsCarousel three_slides three_dots = Inr three_started
   \<and> currentSlide three_started = Num 0
   \<and> (\<exists>cn. advances 4 three_started = Inr cn \<and> currentSlide cn = Num 1 \<and> active_slides cn = [1])"
proof -
  have len: "0 < length three_slides" by (simp add: three_slides_def)
  show ?thesis
    using carousel_index_after_advances [OF len three_init, of 4] len three_init
    by (simp add: three_slides_def)
qed

section \<open>Properties of the contact form\<close>

lemma first_index_Some:
  "first_index p xs = Some k \<Longrightarrow> k < length xs \<and> p (xs ! k) \<and> (\<forall>j<k. \<not> p (xs ! j))"
proof (induction xs arbitrary: k)
  case Nil
  then show ?case by simp
next
  case (Cons x xs)
  show ?case
  proof (cases "p x")
    case True
    with Cons.prems show ?thesis by simp
  next
    case False
    with Cons.prems obtain k' where k': "first_index p xs = Some k'" "k = Suc k'"
      by auto
    from Cons.IH [OF k'(1)] False k'(2) show ?thesis
      by (auto simp: nth_Cons split: nat.splits)
  qed
qed

lemma first_index_None: "first_index p xs = None \<longleftrightarrow> (\<forall>x\<in>set xs. \<not> p x)"
  by (induction xs) auto

lemma first_index_cong:
  "length xs = length ys \<Longrightarrow> (\<And>i. i < length xs \<Longrightarrow> p (xs ! i) = q (ys ! i))
     \<Longrightarrow> first_index p xs = first_index q ys"
proof (induction xs arbitrary: ys)
  case Nil
  then show ?case by simp
next
  case (Cons x xs)
  then obtain y ys' where ys: "ys = y # ys'" by (cases ys) auto
  have "p x = q y" using Cons.prems(2) [of 0] ys by simp
  moreover have "first_index p xs = first_index q ys'"
  proof (rule Cons.IH)
    show "length xs = length ys'" using Cons.prems(1) ys by simp
    show "p (xs ! i) = q (ys' ! i)" if "i < length xs" for i
      using Cons.prems(2) [of "Suc i"] that ys by simp
  qed
  ultimately show ?case by (simp add: ys)
qed

lemma validation_only_refl: "validation_only s s"
  by (simp add: validation_only_def)

lemma validation_only_trans:
  "validation_only s s1 \<Longrightarrow> validation_only s1 s2 \<Longrightarrow> validation_only s s2"
  by (simp add: validation_only_def)

lemma erase_update:
  "map (\<lambda>c. c\<lparr>ctl_aria_invalid := None\<rparr>) (cs[i := (cs ! i)\<lparr>ctl_aria_invalid := a\<rparr>])
     = map (\<lambda>c. c\<lparr>ctl_aria_invalid := None\<rparr>) cs"
proof -
  let ?f = "\<lambda>c. c\<lparr>ctl_aria_invalid := None\<rparr>"
  have "map ?f (cs[i := (cs ! i)\<lparr>ctl_aria_invalid := a\<rparr>]) = (map ?f cs)[i := ?f (cs ! i)]"
    by (simp add: map_update)
  also have "\<dots> = map ?f (cs[i := cs ! i])"
    by (simp only: map_update)
  also have "\<dots> = map ?f cs"
    by simp
  finally show ?thesis .
qed

lemma validateInput_returns:
  assumes "validateInput (Some i) (Some e) vf m s = Inr (ok, s')" "error_text s e \<noteq> None"
  shows "validation_only s s'
       \<and> ok = vf (trim (ctl_value (controls s ! i)))
       \<and> (\<exists>g. closest_group (controls s ! i) = Some g
              \<and> invalid_groups s' = (if ok then invalid_groups s - {g} else insert g (invalid_groups s)))"
  using assms
  by (auto simp: validateInput_def Let_def validation_only_def erase_update
      split: option.splits if_splits)

lemma validateInput_total:
  assumes "closest_group (controls s ! i) = Some g"
  shows "\<exists>ok s'. validateInput (Some i) (Some e) vf m s = Inr (ok, s')"
  using assms by (auto simp: validateInput_def Let_def)

lemma validation_only_controls:
  assumes "validation_only s s'"
  shows "map ctl_id (controls s') = map ctl_id (controls s)"
    and "map ctl_value (controls s') = map ctl_value (controls s)"
    and "map ctl_groups (controls s') = map ctl_groups (controls s)"
    and "map ctl_tag (controls s') = map ctl_tag (controls s)"
    and "map ctl_in_form (controls s') = map ctl_in_form (controls s)"
    and "map ctl_default (controls s') = map ctl_default (controls s)"
    and "length (controls s') = length (controls s)"
proof -
  let ?f = "\<lambda>c. c\<lparr>ctl_aria_invalid := None\<rparr>"
  from assms have eq: "map ?f (controls s') = map ?f (controls s)"
    by (simp add: validation_only_def)
  have g: "map h cs = map h (map ?f cs)" if "\<And>c. h (?f c) = h c" for h :: "control \<Rightarrow> 'b" and cs
    using that by simp
  show "map ctl_id (controls s') = map ctl_id (controls s)"
    by (subst g, simp, subst (2) g, simp, simp only: eq)
  show "map ctl_value (controls s') = map ctl_value (controls s)"
    by (subst g, simp, subst (2) g, simp, simp only: eq)
  show "map ctl_groups (controls s') = map ctl_groups (controls s)"
    by (subst g, simp, subst (2) g, simp, simp only: eq)
  show "map ctl_tag (controls s') = map ctl_tag (controls s)"
    by (subst g, simp, subst (2) g, simp, simp only: eq)
  show "map ctl_in_form (controls s') = map ctl_in_form (controls s)"
    by (subst g, simp, subst (2) g, simp, simp only: eq)
  show "map ctl_default (controls s') = map ctl_default (controls s)"
    by (subst g, simp, subst (2) g, simp, simp only: eq)
  from eq have "length (map ?f (controls s')) = length (map ?f (controls s))" by simp
  then show "length (controls s') = length (controls s)" by simp
qed

lemma validation_only_nth:
  assumes "validation_only s s'" "j < length (controls s)"
  shows "ctl_id (controls s' ! j) = ctl_id (controls s ! j)"
    and "ctl_value (controls s' ! j) = ctl_value (controls s ! j)"
    and "ctl_groups (controls s' ! j) = ctl_groups (controls s ! j)"
    and "ctl_tag (controls s' ! j) = ctl_tag (controls s ! j)"
    and "ctl_in_form (controls s' ! j) = ctl_in_form (controls s ! j)"
proof -
  note c = validation_only_controls [OF assms(1)]
  have j': "j < length (controls s')" using assms(2) c(7) by simp
  show "ctl_id (controls s' ! j) = ctl_id (controls s ! j)"
    using c(1) assms(2) j' by (metis nth_map)
  show "ctl_value (controls s' ! j) = ctl_value (controls s ! j)"
    using c(2) assms(2) j' by (metis nth_map)
  show "ctl_groups (controls s' ! j) = ctl_groups (controls s ! j)"
    using c(3) assms(2) j' by (metis nth_map)
  show "ctl_tag (controls s' ! j) = ctl_tag (controls s ! j)"
    using c(4) assms(2) j' by (metis nth_map)
  show "ctl_in_form (controls s' ! j) = ctl_in_form (controls s ! j)"
    using c(5) assms(2) j' by (metis nth_map)
qed

lemma validation_only_fields:
  assumes "validation_only s s'"
  shows "notifications s' = notifications s" and "notification_container s' = notification_container s"
    and "awaiting s' = awaiting s" and "restore_timers s' = restore_timers s"
    and "btn_html s' = btn_html s" and "btn_disabled s' = btn_disabled s"
    and "btn_aria_busy s' = btn_aria_busy s" and "btn_background s' = btn_background s"
    and "btn_present s' = btn_present s" and "default_prevented s' = default_prevented s"
    and "focused s' = focused s" and "form_console s' = form_console s"
    and "error_text s' e \<noteq> None \<longleftrightarrow> error_text s e \<noteq> None"
proof -
  let ?b = "\<lambda>s. s\<lparr>controls := [], invalid_groups := {}, error_text := Map.empty\<rparr>"
  from assms have eq: "?b s' = ?b s" and d: "dom (error_text s') = dom (error_text s)"
    by (simp_all add: validation_only_def)
  from eq have "notifications (?b s') = notifications (?b s)" by (rule arg_cong)
  then show "notifications s' = notifications s" by simp
  from eq have "notification_container (?b s') = notification_container (?b s)" by (rule arg_cong)
  then show "notification_container s' = notification_container s" by simp
  from eq have "awaiting (?b s') = awaiting (?b s)" by (rule arg_cong)
  then show "awaiting s' = awaiting s" by simp
  from eq have "restore_timers (?b s') = restore_timers (?b s)" by (rule arg_cong)
  then show "restore_timers s' = restore_timers s" by simp
  from eq have "btn_html (?b s') = btn_html (?b s)" by (rule arg_cong)
  then show "btn_html s' = btn_html s" by simp
  from eq have "btn_disabled (?b s') = btn_disabled (?b s)" by (rule arg_cong)
  then show "btn_disabled s' = btn_disabled s" by simp
  from eq have "btn_aria_busy (?b s') = btn_aria_busy (?b s)" by (rule arg_cong)
  then show "btn_aria_busy s' = btn_aria_busy s" by simp
  from eq have "btn_background (?b s') = btn_background (?b s)" by (rule arg_cong)
  then show "btn_background s' = btn_background s" by simp
  from eq have "btn_present (?b s') = btn_present (?b s)" by (rule arg_cong)
  then show "btn_present s' = btn_present s" by simp
  from eq have "default_prevented (?b s') = default_prevented (?b s)" by (rule arg_cong)
  then show "default_prevented s' = default_prevented s" by simp
  from eq have "focused (?b s') = focused (?b s)" by (rule arg_cong)
  then show "focused s' = focused s" by simp
  from eq have "form_console (?b s') = form_console (?b s)" by (rule arg_cong)
  then show "form_console s' = form_console s" by simp
  from d show "error_text s' e \<noteq> None \<longleftrightarrow> error_text s e \<noteq> None"
    by (auto simp: dom_def)
qed

lemma validation_only_layout:
  assumes "validation_only s s'" "form_layout s"
  shows "form_layout s'"
proof -
  note c = validation_only_controls [OF assms(1)]
  have "list_all (\<lambda>c. ctl_in_form c \<and> (ctl_tag c = ''input'' \<or> ctl_tag c = ''textarea'')
                       \<and> length (ctl_groups c) = 1) (controls s')"
    unfolding list_all_length
  proof (intro allI impI)
    fix j assume "j < length (controls s')"
    then have j: "j < length (controls s)" using c(7) by simp
    with assms(2) have "ctl_in_form (controls s ! j)
        \<and> (ctl_tag (controls s ! j) = ''input'' \<or> ctl_tag (controls s ! j) = ''textarea'')
        \<and> length (ctl_groups (controls s ! j)) = 1"
      by (simp add: form_layout_def list_all_length)
    then show "ctl_in_form (controls s' ! j)
        \<and> (ctl_tag (controls s' ! j) = ''input'' \<or> ctl_tag (controls s' ! j) = ''textarea'')
        \<and> length (ctl_groups (controls s' ! j)) = 1"
      by (simp only: validation_only_nth [OF assms(1) j])
  qed
  with assms(2) c(1) c(3) show ?thesis
    by (simp add: form_layout_def)
qed

lemma validation_only_field_value:
  assumes "validation_only s s'"
  shows "field_value i s' = field_value i s"
proof -
  have "first_index (\<lambda>c. ctl_id c = i) (controls s') = first_index (\<lambda>c. ctl_id c = i) (controls s)"
    by (rule first_index_cong)
       (simp_all add: validation_only_controls(7) [OF assms] validation_only_nth(1) [OF assms])
  then have g: "getControlById i s' = getControlById i s"
    by (simp add: getControlById_def)
  show ?thesis
  proof (cases "getControlById i s")
    case None
    with g show ?thesis by (simp add: field_value_def)
  next
    case (Some k)
    then have "k < length (controls s)"
      using first_index_Some [of _ "controls s" k] by (simp add: getControlById_def)
    with Some g show ?thesis
      by (simp add: field_value_def validation_only_nth(2) [OF assms])
  qed
qed

lemma getControlById_present:
  assumes "i \<in> set (map ctl_id (controls s))"
  shows "\<exists>k. getControlById i s = Some k \<and> k < length (controls s) \<and> ctl_id (controls s ! k) = i"
proof -
  from assms have "first_index (\<lambda>c. ctl_id c = i) (controls s) \<noteq> None"
    by (auto simp: first_index_None)
  then obtain k where "first_index (\<lambda>c. ctl_id c = i) (controls s) = Some k" by blast
  with first_index_Some [OF this] show ?thesis
    by (simp add: getControlById_def)
qed

lemma layout_group:
  assumes "form_layout s" "j < length (controls s)"
  shows "\<exists>g. ctl_groups (controls s ! j) = [g]"
proof -
  from assms have "length (ctl_groups (controls s ! j)) = 1"
    by (simp add: form_layout_def list_all_length)
  then show ?thesis
    by (cases "ctl_groups (controls s ! j)") auto
qed

lemma layout_same_id:
  assumes "form_layout s" "i < length (controls s)" "j < length (controls s)"
    "ctl_id (controls s ! i) = ctl_id (controls s ! j)"
  shows "i = j"
proof -
  from assms(1) have "distinct (map ctl_id (controls s))" by (simp add: form_layout_def)
  then have "(map ctl_id (controls s) ! i = map ctl_id (controls s) ! j) = (i = j)"
    by (rule nth_eq_iff_index_eq) (simp_all add: assms)
  then show ?thesis
    using assms by simp
qed

lemma layout_same_group:
  assumes "form_layout s" "i < length (controls s)" "j < length (controls s)"
    "ctl_groups (controls s ! i) = ctl_groups (controls s ! j)"
  shows "i = j"
proof -
  from assms(1) have "distinct (map ctl_groups (controls s))" by (simp add: form_layout_def)
  then have "(map ctl_groups (controls s) ! i = map ctl_groups (controls s) ! j) = (i = j)"
    by (rule nth_eq_iff_index_eq) (simp_all add: assms)
  then show ?thesis
    using assms by simp
qed

lemma validate_fields_wf:
  assumes "form_layout s"
    and "list_all (\<lambda>item. field_id item \<in> set (map ctl_id (controls s))
                         \<and> error_text s (errorId item) \<noteq> None) its"
    and "distinct (map field_id its)"
  shows "\<exists>s'. validate_fields its a s =
            Inr (a \<and> list_all (\<lambda>item. field_predicate item (field_value (field_id item) s)) its, s')
          \<and> validation_only s s'
          \<and> (\<forall>j<length (controls s). \<forall>g. ctl_groups (controls s ! j) = [g] \<longrightarrow>
               (g \<in> invalid_groups s' \<longleftrightarrow>
                 (if ctl_id (controls s ! j) \<in> set (map field_id its)
                  then \<not> list_all (\<lambda>item. field_id item \<noteq> ctl_id (controls s ! j)
                                       \<or> field_predicate item (ctl_value (controls s ! j))) its
                  else g \<in> invalid_groups s)))"
  using assms
proof (induction its arbitrary: s a)
  case Nil
  show ?case by (simp add: validation_only_refl)
next
  case (Cons it its)
  from Cons.prems(2) have present: "field_id it \<in> set (map ctl_id (controls s))"
    and err: "error_text s (errorId it) \<noteq> None"
    and rest: "list_all (\<lambda>item. field_id item \<in> set (map ctl_id (controls s))
                         \<and> error_text s (errorId item) \<noteq> None) its"
    by simp_all
  from Cons.prems(3) have fresh: "field_id it \<notin> set (map field_id its)"
    and dist: "distinct (map field_id its)"
    by simp_all
  from getControlById_present [OF present] obtain k
    where k: "getControlById (field_id it) s = Some k" "k < length (controls s)"
      "ctl_id (controls s ! k) = field_id it"
    by blast
  from layout_group [OF Cons.prems(1) k(2)] obtain g where g: "ctl_groups (controls s ! k) = [g]"
    by blast
  then have cg: "closest_group (controls s ! k) = Some g"
    by (simp add: closest_group_def)
  from err have e: "getErrorElement (errorId it) s = Some (errorId it)"
    by (auto simp: getErrorElement_def)
  from validateInput_total [OF cg] obtain ok s1
    where v: "validateInput (Some k) (Some (errorId it)) (validate it) (msg it) s = Inr (ok, s1)"
    by blast
  from validateInput_returns [OF v err] cg
  have vo: "validation_only s s1"
    and ok: "ok = validate it (trim (ctl_value (controls s ! k)))"
    and inv1: "invalid_groups s1 = (if ok then invalid_groups s - {g} else insert g (invalid_groups s))"
    by auto
  have ok': "ok = field_predicate it (field_value (field_id it) s)"
    by (simp add: ok field_predicate_def field_value_def k(1))
  note c1 = validation_only_controls [OF vo]
  have layout1: "form_layout s1"
    by (rule validation_only_layout [OF vo Cons.prems(1)])
  have rest1: "list_all (\<lambda>item. field_id item \<in> set (map ctl_id (controls s1))
                         \<and> error_text s1 (errorId item) \<noteq> None) its"
    using rest unfolding list_all_iff c1(1)
    using validation_only_fields(13) [OF vo] by blast
  from Cons.IH [OF layout1 rest1 dist, of "if \<not> ok then False else a"] obtain s'
    where run: "validate_fields its (if \<not> ok then False else a) s1 =
            Inr ((if \<not> ok then False else a)
                   \<and> list_all (\<lambda>item. field_predicate item (field_value (field_id item) s1)) its, s')"
      and vo': "validation_only s1 s'"
      and marks: "\<And>j g'. j < length (controls s1) \<Longrightarrow> ctl_groups (controls s1 ! j) = [g'] \<Longrightarrow>
               (g' \<in> invalid_groups s' \<longleftrightarrow>
                 (if ctl_id (controls s1 ! j) \<in> set (map field_id its)
                  then \<not> list_all (\<lambda>item. field_id item \<noteq> ctl_id (controls s1 ! j)
                                       \<or> field_predicate item (ctl_value (controls s1 ! j))) its
                  else g' \<in> invalid_groups s1))"
    by blast
  have res: "validate_fields (it # its) a s =
      Inr (a \<and> list_all (\<lambda>item. field_predicate item (field_value (field_id item) s)) (it # its), s')"
    using run by (auto simp: k(1) e v ok' validation_only_field_value [OF vo])
  have vo2: "validation_only s s'"
    by (rule validation_only_trans [OF vo vo'])
  have marks2: "g' \<in> invalid_groups s' \<longleftrightarrow>
        (if ctl_id (controls s ! j) \<in> set (map field_id (it # its))
         then \<not> list_all (\<lambda>item. field_id item \<noteq> ctl_id (controls s ! j)
                              \<or> field_predicate item (ctl_value (controls s ! j))) (it # its)
         else g' \<in> invalid_groups s)"
    if j: "j < length (controls s)" and g': "ctl_groups (controls s ! j) = [g']" for j g'
  proof -
    have j1: "j < length (controls s1)" using j c1(7) by simp
    note n1 = validation_only_nth [OF vo j]
    from marks [OF j1] g' have m: "g' \<in> invalid_groups s' \<longleftrightarrow>
                 (if ctl_id (controls s ! j) \<in> set (map field_id its)
                  then \<not> list_all (\<lambda>item. field_id item \<noteq> ctl_id (controls s ! j)
                                       \<or> field_predicate item (ctl_value (controls s ! j))) its
                  else g' \<in> invalid_groups s1)"
      by (simp add: n1)
    show ?thesis
    proof (cases "ctl_id (controls s ! j) = field_id it")
      case True
      with k have "j = k" using layout_same_id [OF Cons.prems(1) j k(2)] by simp
      with g g' have gg: "g' = g" by simp
      from True fresh have nin: "ctl_id (controls s ! j) \<notin> set (map field_id its)" by simp
      then have all: "list_all (\<lambda>item. field_id item \<noteq> ctl_id (controls s ! j)
                              \<or> field_predicate item (ctl_value (controls s ! j))) its"
        unfolding list_all_iff set_map by (metis imageI)
      have "g' \<in> invalid_groups s' \<longleftrightarrow> \<not> ok"
        using m nin gg inv1 by simp
      moreover have "field_predicate it (ctl_value (controls s ! j)) = ok"
        using \<open>j = k\<close> by (simp add: ok field_predicate_def)
      ultimately show ?thesis
        using True all by simp
    next
      case False
      have "j \<noteq> k" using False k(3) by auto
      then have "ctl_groups (controls s ! j) \<noteq> ctl_groups (controls s ! k)"
        using layout_same_group [OF Cons.prems(1) j k(2)] by blast
      with g g' have "g' \<noteq> g" by simp
      then have "g' \<in> invalid_groups s1 \<longleftrightarrow> g' \<in> invalid_groups s"
        by (simp add: inv1)
      with m False show ?thesis
        by auto
    qed
  qed
  from res vo2 marks2 show ?case by blast
qed

lemma inputs_distinct: "distinct (map field_id inputs)"
  by (simp add: inputs_def)

lemma some_control_invalid:
  assumes "wf_contact_form s" "\<not> all_fields_valid s"
  shows "\<exists>c\<in>set (controls s). \<not> control_valid c"
proof -
  from assms(2) obtain item where item: "item \<in> set inputs"
      "\<not> field_predicate item (field_value (field_id item) s)"
    by (auto simp: all_fields_valid_def list_all_iff)
  with assms(1) have "field_id item \<in> set (map ctl_id (controls s))"
    by (simp add: wf_contact_form_def list_all_iff)
  from getControlById_present [OF this] obtain k
    where k: "getControlById (field_id item) s = Some k" "k < length (controls s)"
      "ctl_id (controls s ! k) = field_id item"
    by blast
  have "\<not> control_valid (controls s ! k)"
    using item k by (auto simp: control_valid_def list_all_iff field_value_def)
  with k(2) show ?thesis by (meson nth_mem)
qed

lemma submit_validation:
  assumes "wf_contact_form s"
  shows "\<exists>s1. validate_fields inputs True (s\<lparr>default_prevented := True\<rparr>) = Inr (all_fields_valid s, s1)
          \<and> validation_only (s\<lparr>default_prevented := True\<rparr>) s1
          \<and> firstInvalid s1 = first_invalid_field s"
proof -
  let ?s0 = "s\<lparr>default_prevented := True\<rparr>"
  from assms have layout: "form_layout ?s0"
    and present: "list_all (\<lambda>item. field_id item \<in> set (map ctl_id (controls ?s0))
                         \<and> error_text ?s0 (errorId item) \<noteq> None) inputs"
    and others: "list_all (\<lambda>c. ctl_id c \<in> set (map field_id inputs)
                       \<or> \<not> list_ex (\<lambda>g. g \<in> invalid_groups s) (ctl_groups c)) (controls s)"
    by (simp_all add: wf_contact_form_def form_layout_def)
  from validate_fields_wf [OF layout present inputs_distinct, of True] obtain s1
    where run: "validate_fields inputs True ?s0 =
            Inr (list_all (\<lambda>item. field_predicate item (field_value (field_id item) ?s0)) inputs, s1)"
      and vo: "validation_only ?s0 s1"
      and marks: "\<And>j g. j < length (controls ?s0) \<Longrightarrow> ctl_groups (controls ?s0 ! j) = [g] \<Longrightarrow>
               (g \<in> invalid_groups s1 \<longleftrightarrow>
                 (if ctl_id (controls ?s0 ! j) \<in> set (map field_id inputs)
                  then \<not> list_all (\<lambda>item. field_id item \<noteq> ctl_id (controls ?s0 ! j)
                                       \<or> field_predicate item (ctl_value (controls ?s0 ! j))) inputs
                  else g \<in> invalid_groups ?s0))"
    by auto
  have fv: "field_value i ?s0 = field_value i s" for i
    by (simp add: field_value_def getControlById_def split: option.splits)
  have run': "validate_fields inputs True ?s0 = Inr (all_fields_valid s, s1)"
    using run by (simp add: all_fields_valid_def fv)
  have layout1: "form_layout s1"
    by (rule validation_only_layout [OF vo layout])
  have len: "length (controls s1) = length (controls s)"
    using validation_only_controls(7) [OF vo] by simp
  have "first_index
       (\<lambda>c. ctl_in_form c \<and> (ctl_tag c = ''input'' \<or> ctl_tag c = ''textarea'')
            \<and> list_ex (\<lambda>g. g \<in> invalid_groups s1) (ctl_groups c))
       (controls s1) = first_index (\<lambda>c. \<not> control_valid c) (controls s)"
  proof (rule first_index_cong [OF len])
    fix j assume "j < length (controls s1)"
    then have j: "j < length (controls s)" and j1: "j < length (controls s1)"
      and j0: "j < length (controls ?s0)"
      using len by simp_all
    from layout_group [OF layout j0] obtain g where g: "ctl_groups (controls s ! j) = [g]"
      by auto
    have g1: "ctl_groups (controls s1 ! j) = [g]"
      using validation_only_nth(3) [OF vo j0] g by simp
    from layout1 j1 have shape: "ctl_in_form (controls s1 ! j)
        \<and> (ctl_tag (controls s1 ! j) = ''input'' \<or> ctl_tag (controls s1 ! j) = ''textarea'')"
      by (simp add: form_layout_def list_all_length)
    from marks [OF j0] g have m: "g \<in> invalid_groups s1 \<longleftrightarrow>
                 (if ctl_id (controls s ! j) \<in> set (map field_id inputs)
                  then \<not> control_valid (controls s ! j)
                  else g \<in> invalid_groups s)"
      by (simp add: control_valid_def)
    have "g \<in> invalid_groups s1 \<longleftrightarrow> \<not> control_valid (controls s ! j)"
    proof (cases "ctl_id (controls s ! j) \<in> set (map field_id inputs)")
      case True
      with m show ?thesis by simp
    next
      case False
      with others j g have "g \<notin> invalid_groups s"
        by (auto simp: list_all_length)
      moreover from False have "control_valid (controls s ! j)"
        unfolding control_valid_def list_all_iff set_map by (metis imageI)
      ultimately show ?thesis using m False by simp
    qed
    with shape g1 show "(ctl_in_form (controls s1 ! j)
          \<and> (ctl_tag (controls s1 ! j) = ''input'' \<or> ctl_tag (controls s1 ! j) = ''textarea'')
          \<and> list_ex (\<lambda>g. g \<in> invalid_groups s1) (ctl_groups (controls s1 ! j)))
        = (\<not> control_valid (controls s ! j))"
      by simp
  qed
  then have "firstInvalid s1 = first_invalid_field s"
    by (simp add: firstInvalid_def first_invalid_field_def)
  with run' vo show ?thesis by blast
qed

text \<open>
  Claim C4. On a well-formed contact form where at least one of the four predicates
  fails on the trimmed value of its field, the submit handler returns with the default
  action prevented; no simulated submission is started (no invocation is suspended at
  the \<^verbatim>\<open>await\<close>, and the button is left as it was); the only notification emitted is the
  generic error notification, so no success notification; and the control that
  receives focus is the first invalid field in document order.
\<close>

theorem invalid_submit_blocked:
  assumes "wf_contact_form s" and "\<not> all_fields_valid s"
  shows "\<exists>s' i. submit_handler s = Inr s'
          \<and> default_prevented s'
          \<and> awaiting s' = awaiting s
          \<and> btn_html s' = btn_html s \<and> btn_disabled s' = btn_disabled s
          \<and> notifications s' = notifications s @ [(''Please correct the errors in the form.'', ''error'')]
          \<and> focused s' = Some i
          \<and> first_invalid_field s = Some i"
proof -
  let ?s0 = "s\<lparr>default_prevented := True\<rparr>"
  from submit_validation [OF assms(1)] assms(2) obtain s1
    where run: "validate_fields inputs True ?s0 = Inr (False, s1)"
      and vo: "validation_only ?s0 s1"
      and first: "firstInvalid s1 = first_invalid_field s"
    by auto
  from some_control_invalid [OF assms] have "first_invalid_field s \<noteq> None"
    by (simp add: first_invalid_field_def first_index_None)
  then obtain i where i: "first_invalid_field s = Some i" by blast
  note f = validation_only_fields [OF vo]
  from assms(1) have cont: "notification_container s1"
    using f(2) by (simp add: wf_contact_form_def)
  let ?s2 = "s1\<lparr>notifications := notifications s1 @ [(''Please correct the errors in the form.'', ''error'')]\<rparr>"
  have note2: "showNotification ''Please correct the errors in the form.'' ''error'' s1 = ?s2"
    using cont by (simp add: showNotification_def)
  have fi2: "firstInvalid ?s2 = Some i"
    using first i by (simp add: firstInvalid_def)
  have "submit_handler s = Inr (?s2\<lparr>focused := Some i\<rparr>)"
    by (simp add: submit_handler_def run note2 fi2 del: showNotification_def)
  then show ?thesis
    using f i by simp
qed

lemma demo_wf: "wf_contact_form (demo_form n e sub m)"
  by (simp add: wf_contact_form_def form_layout_def demo_form_def demo_control_def inputs_def)

theorem invalid_submit_blocked_witness:
  "wf_contact_form (demo_form ''Ada'' ''a@b'' ''Hi'' '' '')
   \<and> \<not> all_fields_valid (demo_form ''Ada'' ''a@b'' ''Hi'' '' '')
   \<and> (\<exists>s'. submit_handler (demo_form ''Ada'' ''a@b'' ''Hi'' '' '') = Inr s'
          \<and> default_prevented s'
          \<and> awaiting s' = []
          \<and> notifications s' = [(''Please correct the errors in the form.'', ''error'')]
          \<and> focused s' = Some 1)"
proof -
  have inv: "\<not> all_fields_valid (demo_form ''Ada'' ''a@b'' ''Hi'' '' '')"
    by (simp add: all_fields_valid_def inputs_def field_predicate_def field_value_def
        getControlById_def demo_form_def demo_control_def trim_def lit_def is_space_def
        regexp_test_def email_regexp_def not_space_or_at_def)
  have first: "first_invalid_field (demo_form ''Ada'' ''a@b'' ''Hi'' '' '') = Some 1"
    by (simp add: first_invalid_field_def control_valid_def inputs_def field_predicate_def
        demo_form_def demo_control_def trim_def lit_def is_space_def
        regexp_test_def email_regexp_def not_space_or_at_def)
  from invalid_submit_blocked [OF demo_wf inv] first demo_wf inv show ?thesis
    by (auto simp: demo_form_def)
qed

lemma reset_validation_wf:
  assumes "form_layout s"
    and "list_all (\<lambda>item. field_id item \<in> set (map ctl_id (controls s))
                         \<and> error_text s (errorId item) \<noteq> None) its"
  shows "\<exists>s'. forEach reset_validation its s = Inr s' \<and> validation_only s s'"
  using assms
proof (induction its arbitrary: s)
  case Nil
  show ?case by (simp add: validation_only_refl)
next
  case (Cons it its)
  from Cons.prems(2) have present: "field_id it \<in> set (map ctl_id (controls s))"
    and err: "error_text s (errorId it) \<noteq> None"
    and rest: "list_all (\<lambda>item. field_id item \<in> set (map ctl_id (controls s))
                         \<and> error_text s (errorId item) \<noteq> None) its"
    by simp_all
  from getControlById_present [OF present] obtain k
    where k: "getControlById (field_id it) s = Some k" "k < length (controls s)"
    by blast
  from layout_group [OF Cons.prems(1) k(2)] obtain g where "ctl_groups (controls s ! k) = [g]"
    by blast
  then have cg: "closest_group (controls s ! k) = Some g"
    by (simp add: closest_group_def)
  from err obtain old where old: "error_text s (errorId it) = Some old" by blast
  let ?s1 = "s\<lparr>invalid_groups := invalid_groups s - {g},
               error_text := (error_text s)(errorId it \<mapsto> ''''),
               controls := (controls s)[k := (controls s ! k)\<lparr>ctl_aria_invalid := Some ''false''\<rparr>]\<rparr>"
  have step: "reset_validation it s = Inr ?s1"
    by (simp add: reset_validation_def k(1) cg getErrorElement_def old)
  have vo: "validation_only s ?s1"
    using old by (auto simp: validation_only_def erase_update)
  have layout1: "form_layout ?s1"
    by (rule validation_only_layout [OF vo Cons.prems(1)])
  have rest1: "list_all (\<lambda>item. field_id item \<in> set (map ctl_id (controls ?s1))
                         \<and> error_text ?s1 (errorId item) \<noteq> None) its"
    using rest unfolding list_all_iff validation_only_controls(1) [OF vo]
    using validation_only_fields(13) [OF vo] by blast
  from Cons.IH [OF layout1 rest1] obtain s' where "forEach reset_validation its ?s1 = Inr s'"
    "validation_only ?s1 s'" by blast
  with step vo show ?case
    by (auto intro: validation_only_trans)
qed

lemma form_reset_layout:
  assumes "form_layout s"
  shows "form_layout (form_reset s)"
    and "map ctl_id (controls (form_reset s)) = map ctl_id (controls s)"
    and "map ctl_value (controls (form_reset s)) = map ctl_default (controls s)"
proof -
  let ?r = "\<lambda>c. if ctl_in_form c then c\<lparr>ctl_value := ctl_default c\<rparr> else c"
  have id: "ctl_id (?r c) = ctl_id c" and gr: "ctl_groups (?r c) = ctl_groups c"
    and tg: "ctl_tag (?r c) = ctl_tag c" and inf: "ctl_in_form (?r c) = ctl_in_form c" for c
    by simp_all
  show ids: "map ctl_id (controls (form_reset s)) = map ctl_id (controls s)"
    by (simp add: form_reset_def o_def id)
  have grs: "map ctl_groups (controls (form_reset s)) = map ctl_groups (controls s)"
    by (simp add: form_reset_def o_def gr)
  from assms have all: "list_all (\<lambda>c. ctl_in_form c \<and> (ctl_tag c = ''input'' \<or> ctl_tag c = ''textarea'')
                       \<and> length (ctl_groups c) = 1) (controls s)"
    by (simp add: form_layout_def)
  then have "list_all (\<lambda>c. ctl_in_form c \<and> (ctl_tag c = ''input'' \<or> ctl_tag c = ''textarea'')
                       \<and> length (ctl_groups c) = 1) (controls (form_reset s))"
    by (simp add: form_reset_def list_all_iff)
  with assms ids grs show "form_layout (form_reset s)"
    by (simp add: form_layout_def)
  from all have "\<forall>c\<in>set (controls s). ctl_in_form c"
    by (simp add: list_all_iff)
  then show "map ctl_value (controls (form_reset s)) = map ctl_default (controls s)"
    by (simp add: form_reset_def)
qed

lemma demo_retry_reached:
  "submit_resume Rejected (state_of (submit_handler (demo_form ''Ada'' ''a@b.co'' ''Hi'' ''Hello''))) = demo_retry"
  by (simp add: demo_retry_def submit_resume_def submit_handler_def demo_form_def demo_control_def
      inputs_def validateInput_def getControlById_def getErrorElement_def closest_group_def
      trim_def lit_def is_space_def regexp_test_def email_regexp_def not_space_or_at_def
      catch_block_def showNotification_def Let_def)

lemma restore_timers_fire_all:
  assumes "restore_timers x = ts @ [t]"
  shows "btn_html ((restore_button ^^ length (restore_timers x)) x) = t
       \<and> btn_background ((restore_button ^^ length (restore_timers x)) x) = ''''
       \<and> restore_timers ((restore_button ^^ length (restore_timers x)) x) = []"
  using assms
proof (induction ts arbitrary: x)
  case Nil
  then show ?case by (simp add: restore_button_def)
next
  case (Cons a ts)
  let ?y = "restore_button x"
  from Cons.prems have y: "restore_timers ?y = ts @ [t]"
    by (simp add: restore_button_def)
  have "(restore_button ^^ length (restore_timers x)) x = (restore_button ^^ length (restore_timers ?y)) ?y"
    using Cons.prems y by (simp add: funpow_swap1)
  with Cons.IH [OF y] show ?case by simp
qed

lemma valid_submit_keeps_wf:
  assumes "wf_contact_form s"
    and "validate_fields inputs True (s\<lparr>default_prevented := True\<rparr>) = Inr (b, v)"
  shows "wf_contact_form v"
proof -
  let ?s0 = "s\<lparr>default_prevented := True\<rparr>"
  from assms(1) have layout: "form_layout ?s0"
    and present: "list_all (\<lambda>item. field_id item \<in> set (map ctl_id (controls ?s0))
                         \<and> error_text ?s0 (errorId item) \<noteq> None) inputs"
    and others: "list_all (\<lambda>c. ctl_id c \<in> set (map field_id inputs)
                       \<or> \<not> list_ex (\<lambda>g. g \<in> invalid_groups s) (ctl_groups c)) (controls s)"
    and cb: "notification_container s" "btn_present s"
    by (simp_all add: wf_contact_form_def form_layout_def)
  from validate_fields_wf [OF layout present inputs_distinct, of True] assms(2)
  have vo: "validation_only ?s0 v"
    and marks: "\<And>j g. j < length (controls ?s0) \<Longrightarrow> ctl_groups (controls ?s0 ! j) = [g] \<Longrightarrow>
               (g \<in> invalid_groups v \<longleftrightarrow>
                 (if ctl_id (controls ?s0 ! j) \<in> set (map field_id inputs)
                  then \<not> list_all (\<lambda>item. field_id item \<noteq> ctl_id (controls ?s0 ! j)
                                       \<or> field_predicate item (ctl_value (controls ?s0 ! j))) inputs
                  else g \<in> invalid_groups ?s0))"
    by auto
  note f = validation_only_fields [OF vo]
  note c = validation_only_controls [OF vo]
  have layout1: "form_layout v"
    by (rule validation_only_layout [OF vo layout])
  have present1: "list_all (\<lambda>item. field_id item \<in> set (map ctl_id (controls v))
                         \<and> error_text v (errorId item) \<noteq> None) inputs"
    using present unfolding list_all_iff c(1)
    using f(13) by blast
  have others1: "list_all (\<lambda>c. ctl_id c \<in> set (map field_id inputs)
                       \<or> \<not> list_ex (\<lambda>g. g \<in> invalid_groups v) (ctl_groups c)) (controls v)"
    unfolding list_all_length
  proof (intro allI impI)
    fix j assume "j < length (controls v)"
    then have j0: "j < length (controls ?s0)" and j: "j < length (controls s)"
      using c(7) by simp_all
    from layout_group [OF layout j0] obtain g where g: "ctl_groups (controls ?s0 ! j) = [g]"
      by auto
    note n = validation_only_nth [OF vo j0]
    show "ctl_id (controls v ! j) \<in> set (map field_id inputs)
          \<or> \<not> list_ex (\<lambda>g. g \<in> invalid_groups v) (ctl_groups (controls v ! j))"
    proof (cases "ctl_id (controls s ! j) \<in> set (map field_id inputs)")
      case True
      then show ?thesis using n(1) by simp
    next
      case False
      with others j g have "g \<notin> invalid_groups s"
        by (auto simp: list_all_length)
      with marks [OF j0 g] False have "g \<notin> invalid_groups v" by simp
      then show ?thesis using n(3) g by simp
    qed
  qed
  from layout1 present1 others1 cb f(2,9) show ?thesis
    by (simp add: wf_contact_form_def)
qed

text \<open>
  Claim C9. A valid submit on a well-formed form, in any state of the button and of
  the pending timers, suspends one invocation at the \<^verbatim>\<open>await\<close> with the content the
  button had at that moment, and changes no value and no notification. When the
  awaited operation of that invocation rejects, in whatever state \<open>t\<close> the document
  then is: the failure notification is the only notification added; the button is
  enabled again and no longer busy; a 2000ms timer is added that restores the captured
  content, so that once the pending timers have fired the button shows what it showed
  when submit was pressed, with the background cleared; and no control is changed, so
  every field keeps its value. When the operation fulfils instead, the success
  notification is the only one added and every control has its default value.
\<close>

theorem failed_submission_preserves_form:
  assumes "wf_contact_form s" and "all_fields_valid s"
  shows "\<exists>s1. submit_handler s = Inr s1
          \<and> awaiting s1 = awaiting s @ [btn_html s] \<and> btn_disabled s1
          \<and> restore_timers s1 = restore_timers s
          \<and> notifications s1 = notifications s
          \<and> map ctl_value (controls s1) = map ctl_value (controls s)
          \<and> wf_contact_form s1
          \<and> (\<forall>t rest. awaiting t = btn_html s # rest \<and> notification_container t \<longrightarrow>
               (let s2 = submit_resume Rejected t;
                    s2' = (restore_button ^^ length (restore_timers s2)) s2
                in notifications s2 =
                     notifications t @ [(''Failed to send message. Please try again.'', ''error'')]
                   \<and> \<not> btn_disabled s2 \<and> btn_aria_busy s2 = Some ''false''
                   \<and> restore_timers s2 = restore_timers t @ [btn_html s]
                   \<and> btn_html s2' = btn_html s \<and> btn_background s2' = ''''
                   \<and> controls s2 = controls t
                   \<and> awaiting s2 = rest))
          \<and> (\<forall>t rest. awaiting t = btn_html s # rest \<and> wf_contact_form t \<longrightarrow>
               (let s3 = submit_resume Fulfilled t
                in notifications s3 = notifications t @ [(''Message sent successfully!'', ''success'')]
                   \<and> map ctl_value (controls s3) = map ctl_default (controls t)))"
proof -
  let ?s0 = "s\<lparr>default_prevented := True\<rparr>"
  from submit_validation [OF assms(1)] assms(2) obtain v
    where run: "validate_fields inputs True ?s0 = Inr (True, v)"
      and vo: "validation_only ?s0 v"
    by auto
  note f = validation_only_fields [OF vo]
  note c = validation_only_controls [OF vo]
  note wfv = valid_submit_keeps_wf [OF assms(1) run]
  then have btn: "btn_present v"
    by (simp add: wf_contact_form_def)
  define s1 where "s1 = v\<lparr>btn_html := ''<i class=\"ri-loader-4-line ri-spin\"></i> Sending...'',
                         btn_disabled := True,
                         btn_aria_busy := Some ''true'',
                         awaiting := awaiting v @ [btn_html v]\<rparr>"
  have h: "submit_handler s = Inr s1"
    by (simp add: submit_handler_def run btn s1_def)
  have sub: "awaiting s1 = awaiting s @ [btn_html s] \<and> btn_disabled s1
          \<and> restore_timers s1 = restore_timers s
          \<and> notifications s1 = notifications s
          \<and> map ctl_value (controls s1) = map ctl_value (controls s)"
    using f c(2) by (simp add: s1_def)
  have wf1: "wf_contact_form s1"
    using wfv by (simp add: s1_def wf_contact_form_def form_layout_def)
  \<comment> \<open>the rejected path\<close>
  have rej: "let s2 = submit_resume Rejected t;
                 s2' = (restore_button ^^ length (restore_timers s2)) s2
             in notifications s2 =
                  notifications t @ [(''Failed to send message. Please try again.'', ''error'')]
                \<and> \<not> btn_disabled s2 \<and> btn_aria_busy s2 = Some ''false''
                \<and> restore_timers s2 = restore_timers t @ [btn_html s]
                \<and> btn_html s2' = btn_html s \<and> btn_background s2' = ''''
                \<and> controls s2 = controls t
                \<and> awaiting s2 = rest"
    if aw: "awaiting t = btn_html s # rest" and cont: "notification_container t" for t rest
  proof -
    define s2 where "s2 = submit_resume Rejected t"
    have s2: "s2 = (catch_block (t\<lparr>awaiting := rest\<rparr>))
                   \<lparr>btn_disabled := False, btn_aria_busy := Some ''false'',
                    restore_timers := restore_timers (catch_block (t\<lparr>awaiting := rest\<rparr>)) @ [btn_html s]\<rparr>"
      by (simp add: s2_def submit_resume_def aw Let_def)
    have rt: "restore_timers s2 = restore_timers t @ [btn_html s]"
      using cont by (simp add: s2 catch_block_def showNotification_def)
    have direct: "notifications s2 =
                  notifications t @ [(''Failed to send message. Please try again.'', ''error'')]
                \<and> \<not> btn_disabled s2 \<and> btn_aria_busy s2 = Some ''false''
                \<and> controls s2 = controls t
                \<and> awaiting s2 = rest"
      using cont by (simp add: s2 catch_block_def showNotification_def)
    from restore_timers_fire_all [OF rt] rt direct show ?thesis
      by (simp add: s2_def Let_def)
  qed
  \<comment> \<open>the fulfilled path\<close>
  have ful: "let s3 = submit_resume Fulfilled t
             in notifications s3 = notifications t @ [(''Message sent successfully!'', ''success'')]
                \<and> map ctl_value (controls s3) = map ctl_default (controls t)"
    if aw: "awaiting t = btn_html s # rest" and wft: "wf_contact_form t" for t rest
  proof -
    from wft have cont: "notification_container t" and layout: "form_layout t"
      and present: "list_all (\<lambda>item. field_id item \<in> set (map ctl_id (controls t))
                         \<and> error_text t (errorId item) \<noteq> None) inputs"
      by (simp_all add: wf_contact_form_def)
    define x where "x = form_reset
         (showNotification ''Message sent successfully!'' ''success''
           (t\<lparr>awaiting := rest, btn_html := ''<i class=\"ri-check-line\"></i> Message Sent!'',
              btn_background := ''var(--gradient-secondary)''\<rparr>))"
    have layout_pre: "form_layout (showNotification ''Message sent successfully!'' ''success''
           (t\<lparr>awaiting := rest, btn_html := ''<i class=\"ri-check-line\"></i> Message Sent!'',
              btn_background := ''var(--gradient-secondary)''\<rparr>))"
      using layout cont by (simp add: showNotification_def form_layout_def)
    note r = form_reset_layout [OF layout_pre]
    have xl: "form_layout x" using r(1) by (simp add: x_def)
    have xp: "list_all (\<lambda>item. field_id item \<in> set (map ctl_id (controls x))
                         \<and> error_text x (errorId item) \<noteq> None) inputs"
      using present cont r(2)
      by (simp add: x_def list_all_iff) (simp add: form_reset_def showNotification_def)
    from reset_validation_wf [OF xl xp] obtain y
      where y: "forEach reset_validation inputs x = Inr y" "validation_only x y"
      by blast
    have after: "after_await (t\<lparr>awaiting := rest\<rparr>) = Inr y"
      using y(1) by (simp add: after_await_def x_def)
    define s3 where "s3 = submit_resume Fulfilled t"
    have s3: "s3 = y\<lparr>btn_disabled := False, btn_aria_busy := Some ''false'',
                   restore_timers := restore_timers y @ [btn_html s]\<rparr>"
      by (simp add: s3_def submit_resume_def aw Let_def after)
    have xn: "notifications x = notifications t @ [(''Message sent successfully!'', ''success'')]"
      using cont by (simp add: x_def form_reset_def showNotification_def)
    have xv: "map ctl_value (controls x) = map ctl_default (controls t)"
      using r(3) by (simp add: x_def) (simp add: showNotification_def cont)
    have "notifications s3 = notifications t @ [(''Message sent successfully!'', ''success'')]
                 \<and> map ctl_value (controls s3) = map ctl_default (controls t)"
      using validation_only_fields(1) [OF y(2)] validation_only_controls(2) [OF y(2)] xn xv
      by (simp add: s3)
    then show ?thesis by (simp add: s3_def Let_def)
  qed
  from h sub wf1 rej ful show ?thesis
    by blast
qed

theorem failed_submission_preserves_form_witness:
  "wf_contact_form demo_retry \<and> all_fields_valid demo_retry
   \<and> restore_timers demo_retry = [''Send Message'']
   \<and> (\<exists>s1. submit_handler demo_retry = Inr s1
          \<and> awaiting s1 = [btn_html demo_retry]
          \<and> (let s2 = submit_resume Rejected s1;
                  s2' = (restore_button ^^ length (restore_timers s2)) s2
              in notifications s2 = [(''Failed to send message. Please try again.'', ''error''),
                                     (''Failed to send message. Please try again.'', ''error'')]
                 \<and> \<not> btn_disabled s2
                 \<and> restore_timers s2 = [''Send Message'', btn_html demo_retry]
                 \<and> btn_html s2' = btn_html demo_retry
                 \<and> map ctl_value (controls s2) = [lit ''Ada'', lit ''a@b.co'', lit ''Hi'', lit ''Hello'']
                 \<and> awaiting s2 = [])
          \<and> (let s3 = submit_resume Fulfilled s1
              in notifications s3 = [(''Failed to send message. Please try again.'', ''error''),
                                     (''Message sent successfully!'', ''success'')]
                 \<and> map ctl_value (controls s3) = [[], [], [], []]))"
proof -
  have wf: "wf_contact_form demo_retry"
    by (simp add: wf_contact_form_def form_layout_def demo_retry_def demo_control_def inputs_def)
  have valid: "all_fields_valid demo_retry"
    by (simp add: all_fields_valid_def inputs_def field_predicate_def field_value_def
        getControlById_def demo_retry_def demo_control_def trim_def lit_def is_space_def
        regexp_test_def email_regexp_def not_space_or_at_def)
  have a: "awaiting demo_retry = []" and r: "restore_timers demo_retry = [''Send Message'']"
    and n: "notifications demo_retry = [(''Failed to send message. Please try again.'', ''error'')]"
    and v: "map ctl_value (controls demo_retry) = [lit ''Ada'', lit ''a@b.co'', lit ''Hi'', lit ''Hello'']"
    by (simp_all add: demo_retry_def demo_control_def)
  have d: "map ctl_default (controls (state_of (submit_handler demo_retry))) = [[], [], [], []]"
    by (simp add: demo_retry_def submit_handler_def demo_control_def
      inputs_def validateInput_def getControlById_def getErrorElement_def closest_group_def
      trim_def lit_def is_space_def regexp_test_def email_regexp_def not_space_or_at_def Let_def)
  from failed_submission_preserves_form [OF wf valid] obtain s1
    where h: "submit_handler demo_retry = Inr s1"
      and s1: "awaiting s1 = awaiting demo_retry @ [btn_html demo_retry]"
        "restore_timers s1 = restore_timers demo_retry"
        "notifications s1 = notifications demo_retry"
        "map ctl_value (controls s1) = map ctl_value (controls demo_retry)"
        "wf_contact_form s1"
      and rej: "\<And>t rest. awaiting t = btn_html demo_retry # rest \<Longrightarrow> notification_container t \<Longrightarrow>
               (let s2 = submit_resume Rejected t;
                    s2' = (restore_button ^^ length (restore_timers s2)) s2
                in notifications s2 =
                     notifications t @ [(''Failed to send message. Please try again.'', ''error'')]
                   \<and> \<not> btn_disabled s2 \<and> btn_aria_busy s2 = Some ''false''
                   \<and> restore_timers s2 = restore_timers t @ [btn_html demo_retry]
                   \<and> btn_html s2' = btn_html demo_retry \<and> btn_background s2' = []
                   \<and> controls s2 = controls t
                   \<and> awaiting s2 = rest)"
      and ful: "\<And>t rest. awaiting t = btn_html demo_retry # rest \<Longrightarrow> wf_contact_form t \<Longrightarrow>
               (let s3 = submit_resume Fulfilled t
                in notifications s3 = notifications t @ [(''Message sent successfully!'', ''success'')]
                   \<and> map ctl_value (controls s3) = map ctl_default (controls t))"
    by blast
  have aw1: "awaiting s1 = btn_html demo_retry # []"
    using s1(1) a by simp
  from s1(5) have cont1: "notification_container s1"
    by (simp add: wf_contact_form_def)
  from d h have d1: "map ctl_default (controls s1) = [[], [], [], []]"
    by simp
  note R = rej [OF aw1 cont1, unfolded Let_def]
  note F = ful [OF aw1 s1(5), unfolded Let_def]
  from R have R1: "notifications (submit_resume Rejected s1) =
              [(''Failed to send message. Please try again.'', ''error''),
               (''Failed to send message. Please try again.'', ''error'')]"
    by (elim conjE) (simp only: s1(3) n append.simps)
  from R have R2: "\<not> btn_disabled (submit_resume Rejected s1)"
    by (elim conjE)
  from R have R3: "restore_timers (submit_resume Rejected s1) = [''Send Message'', btn_html demo_retry]"
    by (elim conjE) (simp only: s1(2) r append.simps)
  from R have R4: "btn_html ((restore_button ^^ length (restore_timers (submit_resume Rejected s1)))
               (submit_resume Rejected s1)) = btn_html demo_retry"
    by (elim conjE)
  from R have R5: "map ctl_value (controls (submit_resume Rejected s1)) =
              [lit ''Ada'', lit ''a@b.co'', lit ''Hi'', lit ''Hello'']"
    by (elim conjE) (simp only: s1(4) v)
  from R have R6: "awaiting (submit_resume Rejected s1) = []"
    by (elim conjE)
  from F have F1: "notifications (submit_resume Fulfilled s1) =
              [(''Failed to send message. Please try again.'', ''error''),
               (''Message sent successfully!'', ''success'')]"
    by (elim conjE) (simp only: s1(3) n append.simps)
  from F have F2: "map ctl_value (controls (submit_resume Fulfilled s1)) = [[], [], [], []]"
    by (elim conjE) (simp only: d1)
  have aw2: "awaiting s1 = [btn_html demo_retry]"
    using aw1 .
  show ?thesis
    unfolding Let_def
    by (intro conjI exI [of _ s1]; fact)
qed

section \<open>Properties of the router\<close>

lemma perform_own:
  "js_get (routes s) route = Own routeObj \<Longrightarrow>
   performRouteTransition route pushState s = Some (Inr (show_page route routeObj pushState (hide_all_pages s)))"
  by (subst performRouteTransition.simps) (simp add: hide_all_pages_def)

lemma perform_inherited:
  "js_get (routes s) route = Inherited \<Longrightarrow>
   performRouteTransition route pushState s = Some (Inl (TypeError, hide_all_pages s))"
  by (subst performRouteTransition.simps) (simp add: hide_all_pages_def)

lemma perform_undefined:
  "js_get (routes s) route = Undefined \<Longrightarrow>
   performRouteTransition route pushState s =
     performRouteTransition ''home'' True
       ((hide_all_pages s)\<lparr>console := console s @ [(Warn, not_found_warning route)]\<rparr>)"
  by (subst performRouteTransition.simps) (simp add: hide_all_pages_def)

lemma fold_remove: "fold (\<lambda>r act. act - {element r}) rs A = A - element ` set rs"
  by (induction rs arbitrary: A) auto

lemma hide_all_pages_active:
  "active_elements (hide_all_pages s) = active_elements s - set (map (element \<circ> snd) (routes s))"
  by (simp add: hide_all_pages_def fold_remove image_image)

lemma hide_all_pages_frame:
  "routes (hide_all_pages s) = routes s" "element_ids (hide_all_pages s) = element_ids s"
  "currentRoute (hide_all_pages s) = currentRoute s" "history (hide_all_pages s) = history s"
  "console (hide_all_pages s) = console s" "timers (hide_all_pages s) = timers s"
  "isLoading (hide_all_pages s) = isLoading s" "title (hide_all_pages s) = title s"
  "nav_links (hide_all_pages s) = nav_links s"
  by (simp_all add: hide_all_pages_def)

lemma show_page_frame:
  "routes (show_page r ro p s) = routes s" "element_ids (show_page r ro p s) = element_ids s"
  "currentRoute (show_page r ro p s) = r"
  "history (show_page r ro p s) = history s @ (if p then [(r, ''#'' @ r)] else [])"
  "console (show_page r ro p s) = console s" "timers (show_page r ro p s) = timers s"
  "isLoading (show_page r ro p s) = isLoading s"
  "active_elements (show_page r ro p s) = insert (element ro) (active_elements s)"
  by (simp_all add: show_page_def Let_def updatePageTitle_def scrollToTop_def closeMobileMenu_def
      updateNavigation_def)

lemma perform_frame:
  assumes "performRouteTransition route pushState s = Some y"
  shows "routes (state_of y) = routes s \<and> element_ids (state_of y) = element_ids s"
proof (rule performRouteTransition.raw_induct
    [where P = "\<lambda>route pushState s y. routes (state_of y) = routes s \<and> element_ids (state_of y) = element_ids s",
     OF _ assms], goal_cases)
  case (1 perform route pushState s y)
  show ?case
  proof (cases "js_get (routes s) route")
    case Undefined
    with 1(2) have "perform ''home'' True
               ((hide_all_pages s)\<lparr>console := console (hide_all_pages s) @
                   [(Warn, not_found_warning route)]\<rparr>) = Some y"
      by (simp add: hide_all_pages_frame)
    from 1(1) [OF this] show ?thesis
      by (simp add: hide_all_pages_frame)
  next
    case (Own ro)
    with 1(2) show ?thesis
      by (auto simp: hide_all_pages_frame show_page_frame)
  next
    case Inherited
    with 1(2) show ?thesis
      by (auto simp: hide_all_pages_frame)
  qed
qed

lemma update_new_key: "k \<notin> fst ` set al \<Longrightarrow> AList.update k v al = al @ [(k, v)]"
  by (induction al) auto

lemma register_fold:
  assumes "distinct (map fst ps)" "set (map fst ps) \<inter> fst ` set (routes s) = {}"
  shows "routes (fold (\<lambda>(p, e). registerRoute p e) ps s) =
           routes s @ map (\<lambda>(p, e). (p, \<lparr>element = e, path = p\<rparr>))
                        (filter (\<lambda>(p, e). e \<in> set (element_ids s)) ps)
         \<and> element_ids (fold (\<lambda>(p, e). registerRoute p e) ps s) = element_ids s
         \<and> currentRoute (fold (\<lambda>(p, e). registerRoute p e) ps s) = currentRoute s
         \<and> active_elements (fold (\<lambda>(p, e). registerRoute p e) ps s) = active_elements s
         \<and> history (fold (\<lambda>(p, e). registerRoute p e) ps s) = history s
         \<and> timers (fold (\<lambda>(p, e). registerRoute p e) ps s) = timers s
         \<and> isLoading (fold (\<lambda>(p, e). registerRoute p e) ps s) = isLoading s
         \<and> filter (\<lambda>(l, m). l = Warn) (console (fold (\<lambda>(p, e). registerRoute p e) ps s))
             = filter (\<lambda>(l, m). l = Warn) (console s)"
  using assms
proof (induction ps arbitrary: s)
  case Nil
  show ?case by simp
next
  case (Cons pe ps)
  obtain p e where pe: "pe = (p, e)" by (cases pe)
  from Cons.prems have new: "p \<notin> fst ` set (routes s)" and d: "distinct (map fst ps)"
    and np: "p \<notin> set (map fst ps)"
    and disj: "set (map fst ps) \<inter> fst ` set (routes s) = {}"
    by (auto simp: pe)
  let ?s1 = "registerRoute p e s"
  have r1: "routes ?s1 = routes s @ (if e \<in> set (element_ids s) then [(p, \<lparr>element = e, path = p\<rparr>)] else [])"
    using new by (simp add: registerRoute_def update_new_key)
  have f1: "element_ids ?s1 = element_ids s" "currentRoute ?s1 = currentRoute s"
    "active_elements ?s1 = active_elements s" "history ?s1 = history s" "timers ?s1 = timers s"
    "isLoading ?s1 = isLoading s"
    "filter (\<lambda>(l, m). l = Warn) (console ?s1) = filter (\<lambda>(l, m). l = Warn) (console s)"
    by (simp_all add: registerRoute_def)
  have "set (map fst ps) \<inter> fst ` set (routes ?s1) = {}"
    using disj np by (force simp: r1)
  from Cons.IH [OF d this] show ?case
    by (simp add: pe r1 f1)
qed

lemma registry_keys: "map fst (registry ids) = map fst (filter (\<lambda>(p, e). e \<in> set ids) page_table)"
  by (simp add: registry_def o_def case_prod_unfold)

lemma registry_elements:
  "map (element \<circ> snd) (registry ids) = map snd (filter (\<lambda>(p, e). e \<in> set ids) page_table)"
  by (simp add: registry_def o_def case_prod_unfold)

lemma registry_distinct:
  "distinct (map fst (registry ids))" "distinct (map (element \<circ> snd) (registry ids))"
proof -
  have "distinct (map fst page_table)" "distinct (map snd page_table)"
    by (simp_all add: page_table_def)
  then show "distinct (map fst (registry ids))" "distinct (map (element \<circ> snd) (registry ids))"
    by (simp_all only: registry_keys registry_elements distinct_map_filter)
qed

lemma registry_not_inherited:
  "k \<in> set object_prototype_keys \<Longrightarrow> map_of (registry ids) k = None"
proof -
  assume k: "k \<in> set object_prototype_keys"
  have "set (map fst (registry ids)) \<subseteq> set (map fst page_table)"
    by (auto simp: registry_keys)
  moreover have "k \<notin> set (map fst page_table)"
    using k by (auto simp: page_table_def object_prototype_keys_def)
  ultimately have "k \<notin> fst ` set (registry ids)" by auto
  then show ?thesis by (simp add: map_of_eq_None_iff)
qed

lemma home_not_inherited: "''home'' \<notin> set object_prototype_keys"
  by (simp add: object_prototype_keys_def)

lemma constructor_routes:
  "routes (fold (\<lambda>(p, e). registerRoute p e) page_table
             (doc\<lparr>routes := [], currentRoute := ''home'', isLoading := False\<rparr>))
     = registry (element_ids doc)"
proof -
  have "distinct (map fst page_table)" by (simp add: page_table_def)
  from register_fold [OF this, of "doc\<lparr>routes := [], currentRoute := ''home'', isLoading := False\<rparr>"]
  show ?thesis by (simp add: registry_def)
qed

lemma loadRoute_frame:
  "loadRoute route p l s = Some y \<Longrightarrow>
   routes (state_of y) = routes s \<and> element_ids (state_of y) = element_ids s"
  by (auto simp: loadRoute_def showLoader_def Let_def dest: perform_frame split: if_splits)

lemma handle_frame:
  assumes "handle ev s = Some y"
  shows "routes (state_of y) = routes s \<and> element_ids (state_of y) = element_ids s"
proof (cases ev)
  case (Click route)
  with assms show ?thesis
    by (auto simp: navigateTo_def closeMobileMenu_def scrollToTop_def
        dest: loadRoute_frame split: if_splits)
next
  case (PopState st)
  with assms show ?thesis
    by (auto dest: loadRoute_frame)
next
  case (TimerFires n)
  show ?thesis
  proof (cases "n < length (timers s)")
    case False
    with assms TimerFires show ?thesis by auto
  next
    case True
    let ?s0 = "s\<lparr>timers := take n (timers s) @ drop (Suc n) (timers s)\<rparr>"
    from True assms TimerFires have run: "run_task (snd (timers s ! n)) ?s0 = Some y" by simp
    show ?thesis
    proof (cases "snd (timers s ! n)")
      case (TransitionThenHide route p)
      with run obtain y' where y': "performRouteTransition route p ?s0 = Some y'"
        by (auto split: option.splits)
      from perform_frame [OF y'] run TransitionThenHide y' show ?thesis
        by (cases y') (auto simp: hideLoader_def)
    next
      case HideLoaderOuter
      with run show ?thesis by auto
    next
      case HideLoaderInner
      with run show ?thesis by auto
    qed
  qed
qed

lemma reachable_routes:
  assumes "reachable doc h s"
  shows "routes s = registry (element_ids doc) \<and> element_ids s = element_ids doc"
  using assms
proof (induction rule: reachable.induct)
  case (constructed r)
  let ?s1 = "fold (\<lambda>(p, e). registerRoute p e) page_table
             (doc\<lparr>routes := [], currentRoute := ''home'', isLoading := False\<rparr>)"
  have "distinct (map fst page_table)" by (simp add: page_table_def)
  from register_fold [OF this, of "doc\<lparr>routes := [], currentRoute := ''home'', isLoading := False\<rparr>"]
  have ids: "element_ids ?s1 = element_ids doc" by simp
  from constructed obtain x where "loadRoute x False False ?s1 = Some r"
    by (simp add: SPARouter_def Let_def)
  from loadRoute_frame [OF this] show ?case
    by (simp add: constructor_routes ids)
next
  case (handled s ev r)
  from handle_frame [OF handled(2)] handled(3) show ?case by simp
qed

lemma filter_same_key:
  "distinct (map f xs) \<Longrightarrow> x \<in> set xs \<Longrightarrow> filter (\<lambda>y. f y = f x) xs = [x]"
proof (induction xs)
  case Nil
  then show ?case by simp
next
  case (Cons a xs)
  show ?case
  proof (cases "a = x")
    case True
    with Cons.prems(1) have "f x \<notin> f ` set xs" by simp
    then have "\<forall>y\<in>set xs. f y \<noteq> f x" by (metis imageI)
    then have "filter (\<lambda>y. f y = f x) xs = []" by (simp add: filter_empty_conv)
    with True show ?thesis by simp
  next
    case False
    with Cons.prems have "x \<in> set xs" "f a \<noteq> f x" "distinct (map f xs)" by auto
    with Cons.IH show ?thesis by simp
  qed
qed

lemma transition_to_registered:
  assumes "distinct (map (element \<circ> snd) (routes s))" and "map_of (routes s) r = Some ro"
  shows "performRouteTransition r p s = Some (Inr (show_page r ro p (hide_all_pages s)))
       \<and> active_routes (show_page r ro p (hide_all_pages s)) = [r]"
proof -
  from assms(2) have get: "js_get (routes s) r = Own ro"
    by (simp add: js_get_def)
  from assms(2) have mem: "(r, ro) \<in> set (routes s)"
    by (rule map_of_SomeD)
  let ?s' = "show_page r ro p (hide_all_pages s)"
  have act: "active_elements ?s' = insert (element ro)
       (active_elements s - set (map (element \<circ> snd) (routes s)))"
    by (simp add: show_page_frame hide_all_pages_active)
  have "filter (\<lambda>(k, ro'). element ro' \<in> active_elements ?s') (routes s)
      = filter (\<lambda>y. (element \<circ> snd) y = (element \<circ> snd) (r, ro)) (routes s)"
    by (rule filter_cong) (force simp: act)+
  also have "\<dots> = [(r, ro)]"
    by (rule filter_same_key [OF assms(1) mem])
  finally have "active_routes ?s' = [r]"
    by (simp add: active_routes_def show_page_frame hide_all_pages_frame)
  with perform_own [OF get] show ?thesis by simp
qed

lemma perform_diverges:
  assumes "js_get (routes s) ''home'' = Undefined" and "js_get (routes s) route = Undefined"
  shows "performRouteTransition route p s = None"
proof (rule ccontr)
  assume "performRouteTransition route p s \<noteq> None"
  then obtain y where y: "performRouteTransition route p s = Some y" by blast
  have "\<not> (js_get (routes s) ''home'' = Undefined \<and> js_get (routes s) route = Undefined)"
  proof (rule performRouteTransition.raw_induct
      [where P = "\<lambda>route p s y. \<not> (js_get (routes s) ''home'' = Undefined \<and> js_get (routes s) route = Undefined)",
       OF _ y], goal_cases)
    case (1 perform route p s y)
    show ?case
    proof
      assume u: "js_get (routes s) ''home'' = Undefined \<and> js_get (routes s) route = Undefined"
      with 1(2) have "perform ''home'' True
               ((hide_all_pages s)\<lparr>console := console (hide_all_pages s) @
                   [(Warn, not_found_warning route)]\<rparr>) = Some y"
        by (simp add: hide_all_pages_frame)
      from 1(1) [OF this] u show False
        by (simp add: hide_all_pages_frame)
    qed
  qed
  with assms show False by simp
qed

lemma reachable_distinct:
  assumes "reachable doc h s"
  shows "distinct (map (element \<circ> snd) (routes s))" "distinct (map fst (routes s))"
  using reachable_routes [OF assms] registry_distinct by simp_all

lemma active_routes_others:
  assumes "active_routes s = [r]" "distinct (map fst (routes s))" "map_of (routes s) k = Some ro" "k \<noteq> r"
  shows "element ro \<notin> active_elements s"
proof
  assume "element ro \<in> active_elements s"
  moreover from assms(3) have "(k, ro) \<in> set (routes s)" by (rule map_of_SomeD)
  ultimately have "k \<in> set (active_routes s)"
    by (force simp: active_routes_def)
  with assms(1,4) show False by simp
qed

text \<open>
  Claim C1. In every state the router can reach once constructed, a transition to a
  registered route \<open>r\<close> returns, with or without a history push, and afterwards \<open>r\<close> is
  the current route, its page element carries the class \<^verbatim>\<open>active\<close>, the element of
  every other registered route does not, and so \<open>r\<close> is the one active route.
\<close>

theorem navigation_activates_exactly_one:
  assumes "reachable doc location_hash s" and "map_of (routes s) r = Some routeObj"
  shows "\<exists>s'. performRouteTransition r pushState s = Some (Inr s')
          \<and> active_routes s' = [r]
          \<and> currentRoute s' = r
          \<and> routes s' = routes s
          \<and> element routeObj \<in> active_elements s'
          \<and> (\<forall>k ro. map_of (routes s') k = Some ro \<and> k \<noteq> r \<longrightarrow> element ro \<notin> active_elements s')"
proof -
  note d = reachable_distinct [OF assms(1)]
  let ?s' = "show_page r routeObj pushState (hide_all_pages s)"
  from transition_to_registered [OF d(1) assms(2), of pushState]
  have run: "performRouteTransition r pushState s = Some (Inr ?s')"
    and one: "active_routes ?s' = [r]" by simp_all
  have rs: "routes ?s' = routes s"
    by (simp add: show_page_frame hide_all_pages_frame)
  have "element ro \<notin> active_elements ?s'" if "map_of (routes ?s') k = Some ro \<and> k \<noteq> r" for k ro
    using active_routes_others [OF one, of k ro] that d(2) by (simp add: rs)
  with run one rs show ?thesis
    by (simp add: show_page_frame)
qed

lemma demo_registry:
  "registry (element_ids demo_doc) =
     [(''home'', \<lparr>element = ''home-page'', path = ''home''\<rparr>),
      (''about'', \<lparr>element = ''about-page'', path = ''about''\<rparr>),
      (''skills'', \<lparr>element = ''skills-page'', path = ''skills''\<rparr>),
      (''projects'', \<lparr>element = ''projects-page'', path = ''projects''\<rparr>),
      (''blog'', \<lparr>element = ''blog-page'', path = ''blog''\<rparr>),
      (''education'', \<lparr>element = ''education-page'', path = ''education''\<rparr>),
      (''contact'', \<lparr>element = ''contact-page'', path = ''contact''\<rparr>)]"
  by (simp add: registry_def demo_doc_def page_table_def)

lemma constructor_registered:
  assumes "map_of (registry (element_ids doc)) x = Some ro"
    and "x = (if truthy (js_get (registry (element_ids doc)) (drop 1 h)) then drop 1 h else ''home'')"
  shows "\<exists>s'. SPARouter doc h = Some (Inr s')
          \<and> active_routes s' = [x] \<and> currentRoute s' = x
          \<and> routes s' = registry (element_ids doc)
          \<and> history s' = history doc \<and> timers s' = timers doc \<and> \<not> isLoading s'
          \<and> filter (\<lambda>(l, m). l = Warn) (console s') = filter (\<lambda>(l, m). l = Warn) (console doc)"
proof -
  let ?s0 = "doc\<lparr>routes := [], currentRoute := ''home'', isLoading := False\<rparr>"
  let ?s1 = "fold (\<lambda>(p, e). registerRoute p e) page_table ?s0"
  have "distinct (map fst page_table)" by (simp add: page_table_def)
  from register_fold [OF this, of ?s0]
  have f: "routes ?s1 = registry (element_ids doc)" "currentRoute ?s1 = ''home''"
    "history ?s1 = history doc" "timers ?s1 = timers doc" "\<not> isLoading ?s1"
    "filter (\<lambda>(l, m). l = Warn) (console ?s1) = filter (\<lambda>(l, m). l = Warn) (console doc)"
    by (simp_all add: registry_def)
  have run: "SPARouter doc h = performRouteTransition x False ?s1"
    by (simp add: SPARouter_def Let_def loadRoute_def f assms(2))
  have d: "distinct (map (element \<circ> snd) (routes ?s1))"
    by (simp only: f(1) registry_distinct)
  have m: "map_of (routes ?s1) x = Some ro"
    using assms(1) by (simp only: f(1))
  from transition_to_registered [OF d m, of False] run f show ?thesis
    by (simp add: show_page_frame hide_all_pages_frame)
qed

lemma popstate_registered:
  assumes "reachable doc h s" and "map_of (routes s) r = Some ro" and "r \<noteq> []"
  shows "handle (PopState (Some r)) s = Some (Inr (show_page r ro False (hide_all_pages s)))
       \<and> active_routes (show_page r ro False (hide_all_pages s)) = [r]"
  using transition_to_registered [OF reachable_distinct(1) [OF assms(1)] assms(2), of False] assms(3)
  by (simp add: loadRoute_def)

lemma demo_home_facts:
  "reachable demo_doc [] demo_home"
  "routes demo_home = registry (element_ids demo_doc)"
  "active_routes demo_home = [''home'']" "currentRoute demo_home = ''home''"
  "history demo_home = []" "timers demo_home = []" "\<not> isLoading demo_home"
proof -
  have u: "js_get (registry (element_ids demo_doc)) [] = Undefined"
    by (simp add: demo_registry js_get_def object_prototype_keys_def)
  have m: "map_of (registry (element_ids demo_doc)) ''home'' = Some \<lparr>element = ''home-page'', path = ''home''\<rparr>"
    by (simp add: demo_registry)
  from constructor_registered [OF m, of "[]"] u obtain s'
    where s': "SPARouter demo_doc [] = Some (Inr s')" "active_routes s' = [''home'']"
      "currentRoute s' = ''home''" "routes s' = registry (element_ids demo_doc)"
      "history s' = history demo_doc" "timers s' = timers demo_doc" "\<not> isLoading s'"
    by auto
  have eq: "demo_home = s'" by (simp add: demo_home_def s'(1))
  from reachable.constructed [OF s'(1)] show "reachable demo_doc [] demo_home"
    by (simp add: eq)
  from s' show "routes demo_home = registry (element_ids demo_doc)"
    "active_routes demo_home = [''home'']" "currentRoute demo_home = ''home''"
    "history demo_home = []" "timers demo_home = []" "\<not> isLoading demo_home"
    by (simp_all add: eq demo_doc_def)
qed

lemma demo_about_facts:
  "reachable demo_doc [] demo_about"
  "routes demo_about = registry (element_ids demo_doc)"
  "active_routes demo_about = [''about'']" "currentRoute demo_about = ''about''"
  "history demo_about = []" "timers demo_about = []" "\<not> isLoading demo_about"
proof -
  have m: "map_of (routes demo_home) ''about'' = Some \<lparr>element = ''about-page'', path = ''about''\<rparr>"
    by (simp add: demo_home_facts(2) demo_registry)
  let ?s' = "show_page ''about'' \<lparr>element = ''about-page'', path = ''about''\<rparr> False (hide_all_pages demo_home)"
  from popstate_registered [OF demo_home_facts(1) m]
  have run: "handle (PopState (Some ''about'')) demo_home = Some (Inr ?s')"
    and act: "active_routes ?s' = [''about'']" by simp_all
  have eq: "demo_about = ?s'" by (simp only: demo_about_def run) simp
  from reachable.handled [OF demo_home_facts(1) run] show "reachable demo_doc [] demo_about"
    by (simp add: eq)
  show "routes demo_about = registry (element_ids demo_doc)"
    "active_routes demo_about = [''about'']" "currentRoute demo_about = ''about''"
    "history demo_about = []" "timers demo_about = []" "\<not> isLoading demo_about"
    using act demo_home_facts
    by (simp_all add: eq show_page_frame hide_all_pages_frame)
qed

theorem navigation_activates_exactly_one_witness:
  "reachable demo_doc [] demo_about
   \<and> map_of (routes demo_about) ''skills'' = Some \<lparr>element = ''skills-page'', path = ''skills''\<rparr>
   \<and> (\<exists>s'. performRouteTransition ''skills'' True demo_about = Some (Inr s')
          \<and> active_routes s' = [''skills'']
          \<and> currentRoute s' = ''skills''
          \<and> ''skills-page'' \<in> active_elements s'
          \<and> ''about-page'' \<notin> active_elements s')"
proof -
  have m: "map_of (routes demo_about) ''skills'' = Some \<lparr>element = ''skills-page'', path = ''skills''\<rparr>"
    by (simp add: demo_about_facts(2) demo_registry)
  from navigation_activates_exactly_one [OF demo_about_facts(1) m, of True] obtain s'
    where s': "performRouteTransition ''skills'' True demo_about = Some (Inr s')"
      "active_routes s' = [''skills'']" "currentRoute s' = ''skills''" "routes s' = routes demo_about"
      "''skills-page'' \<in> active_elements s'"
      "\<forall>k ro. map_of (routes s') k = Some ro \<and> k \<noteq> ''skills'' \<longrightarrow> element ro \<notin> active_elements s'"
    by auto
  have "map_of (routes s') ''about'' = Some \<lparr>element = ''about-page'', path = ''about''\<rparr>"
    by (simp add: s'(4) demo_about_facts(2) demo_registry)
  with s'(6) have "''about-page'' \<notin> active_elements s'" by force
  with s' demo_about_facts(1) m show ?thesis by blast
qed

lemma hide_all_pages_none_active: "active_routes (hide_all_pages s) = []"
proof -
  have "filter (\<lambda>(p, ro). element ro \<in> active_elements (hide_all_pages s)) (routes s) = []"
    by (force simp: filter_empty_conv hide_all_pages_active)
  then show ?thesis
    by (simp add: active_routes_def hide_all_pages_frame)
qed

text \<open>
  Claim C8. When \<open>r\<close> is the current route, \<^verbatim>\<open>navigateTo(r)\<close> returns at once: it scrolls
  to the top and closes the mobile menu, and changes nothing else. In particular no
  history entry is pushed, no timer is set, and the current route and the active page
  elements stay as they were.
\<close>

theorem navigateTo_current_route_no_push:
  assumes "currentRoute s = r"
  shows "\<exists>s'. navigateTo r s = Some (Inr s')
          \<and> s' = closeMobileMenu (scrollToTop s)
          \<and> history s' = history s
          \<and> currentRoute s' = r
          \<and> active_elements s' = active_elements s
          \<and> active_routes s' = active_routes s
          \<and> timers s' = timers s
          \<and> scrollY s' = 0 \<and> \<not> mobileMenu_active s'
          \<and> s'\<lparr>scrollY := scrollY s, mobileMenu_active := mobileMenu_active s,
                menu_icon := menu_icon s, menu_aria_expanded := menu_aria_expanded s\<rparr> = s"
  using assms
  by (simp add: navigateTo_def closeMobileMenu_def scrollToTop_def active_routes_def)

theorem navigateTo_current_route_no_push_witness:
  "currentRoute demo_about = ''about''
   \<and> (\<exists>s'. navigateTo ''about'' demo_about = Some (Inr s')
          \<and> history s' = [] \<and> currentRoute s' = ''about'' \<and> active_routes s' = [''about'']
          \<and> timers s' = [] \<and> scrollY s' = 0)"
  using navigateTo_current_route_no_push [OF demo_about_facts(4)] demo_about_facts
  by auto

lemma navigateTo_unregistered:
  assumes "js_get (routes s) u = Undefined"
  shows "navigateTo u s = Some (Inr (if currentRoute s = u then closeMobileMenu (scrollToTop s) else s))"
  using assms by (simp add: navigateTo_def)

lemma popstate_unknown:
  assumes "reachable doc h s" and "js_get (routes s) u = Undefined"
    and "map_of (routes s) ''home'' = Some homeObj" and "u \<noteq> []"
  shows "\<exists>s'. handle (PopState (Some u)) s = Some (Inr s')
          \<and> active_routes s' = [''home''] \<and> currentRoute s' = ''home''
          \<and> console s' = console s @ [(Warn, not_found_warning u)]
          \<and> history s' = history s @ [(''home'', ''#home'')]"
proof -
  let ?s1 = "(hide_all_pages s)\<lparr>console := console s @ [(Warn, not_found_warning u)]\<rparr>"
  have r1: "routes ?s1 = routes s" by (simp add: hide_all_pages_frame)
  have d: "distinct (map (element \<circ> snd) (routes ?s1))"
    using reachable_distinct(1) [OF assms(1)] by (simp only: r1)
  have m: "map_of (routes ?s1) ''home'' = Some homeObj"
    using assms(3) by (simp only: r1)
  have "handle (PopState (Some u)) s = performRouteTransition ''home'' True ?s1"
    using assms(4) perform_undefined [OF assms(2), of False] by (simp add: loadRoute_def)
  with transition_to_registered [OF d m, of True] show ?thesis
    by (simp add: show_page_frame hide_all_pages_frame)
qed

lemma popstate_known_no_push:
  assumes "reachable doc h s" and "map_of (routes s) r = Some ro" and "r \<noteq> []"
  shows "\<exists>s'. handle (PopState (Some r)) s = Some (Inr s') \<and> history s' = history s
          \<and> active_routes s' = [r]"
  using popstate_registered [OF assms]
  by (simp add: show_page_frame hide_all_pages_frame del: handle.simps)

lemma popstate_no_route_no_push:
  assumes "reachable doc h s" and "map_of (routes s) ''home'' = Some ro"
  shows "\<exists>s'. handle (PopState None) s = Some (Inr s') \<and> history s' = history s
          \<and> active_routes s' = [''home'']"
  using transition_to_registered [OF reachable_distinct(1) [OF assms(1)] assms(2), of False]
  by (simp add: loadRoute_def show_page_frame hide_all_pages_frame)

text \<open>
  Claim C7, evaluated on the code. The router is on the route \<^verbatim>\<open>about\<close> with nothing
  pushed so far; a \<^verbatim>\<open>popstate\<close> event arrives whose state names the route \<^verbatim>\<open>nope\<close>, which
  is not registered. The handler ends on the home route and has pushed the history
  entry \<^verbatim>\<open>#home\<close>.
\<close>

theorem popstate_unknown_route_pushes_history:
  "history demo_about = []
   \<and> js_get (routes demo_about) ''nope'' = Undefined
   \<and> (\<exists>s'. handle (PopState (Some ''nope'')) demo_about = Some (Inr s')
          \<and> active_routes s' = [''home'']
          \<and> history s' = [(''home'', ''#home'')])"
proof -
  have u: "js_get (routes demo_about) ''nope'' = Undefined"
    by (simp add: demo_about_facts(2) demo_registry js_get_def object_prototype_keys_def)
  have m: "map_of (routes demo_about) ''home'' = Some \<lparr>element = ''home-page'', path = ''home''\<rparr>"
    by (simp add: demo_about_facts(2) demo_registry)
  from popstate_unknown [OF demo_about_facts(1) u m] u demo_about_facts(5) show ?thesis
    by auto
qed

text \<open>
  Claim C10, evaluated on the code. The router is on the home route and idle.
  \<^verbatim>\<open>constructor\<close> is not a registered route, but \<^verbatim>\<open>this.routes['constructor']\<close> is the
  inherited property, so \<^verbatim>\<open>navigateTo('constructor')\<close> shows the loader and sets the
  100ms timer. When the timer fires, every page loses the class \<^verbatim>\<open>active\<close> and the
  transition throws before \<^verbatim>\<open>hideLoader\<close> is called: no page is active, no timer is
  pending, and \<open>isLoading\<close> stays set.
\<close>

theorem navigateTo_inherited_key_not_noop:
  "map_of (routes demo_home) ''constructor'' = None
   \<and> currentRoute demo_home \<noteq> ''constructor''
   \<and> \<not> isLoading demo_home
   \<and> active_routes demo_home = [''home'']
   \<and> (\<exists>s1 s2. navigateTo ''constructor'' demo_home = Some (Inr s1)
          \<and> isLoading s1
          \<and> timers s1 = [(100, TransitionThenHide ''constructor'' True)]
          \<and> handle (TimerFires 0) s1 = Some (Inl (TypeError, s2))
          \<and> active_routes s2 = []
          \<and> isLoading s2
          \<and> timers s2 = [])"
proof -
  have n: "map_of (routes demo_home) ''constructor'' = None"
    by (simp add: demo_home_facts(2) demo_registry)
  then have g: "js_get (routes demo_home) ''constructor'' = Inherited"
    by (simp add: js_get_def object_prototype_keys_def)
  let ?s1 = "(showLoader demo_home)\<lparr>timers := [(100, TransitionThenHide ''constructor'' True)]\<rparr>"
  let ?s0 = "?s1\<lparr>timers := []\<rparr>"
  have nav: "navigateTo ''constructor'' demo_home = Some (Inr ?s1)"
    using g demo_home_facts by (simp add: navigateTo_def loadRoute_def Let_def showLoader_def)
  have g0: "js_get (routes ?s0) ''constructor'' = Inherited"
    using g by (simp add: showLoader_def)
  have fire: "handle (TimerFires 0) ?s1 = Some (Inl (TypeError, hide_all_pages ?s0))"
    using perform_inherited [OF g0, of True] by simp
  have "isLoading ?s1" "timers ?s1 = [(100, TransitionThenHide ''constructor'' True)]"
    "isLoading (hide_all_pages ?s0)" "timers (hide_all_pages ?s0) = []"
    by (simp_all add: showLoader_def hide_all_pages_frame)
  with nav fire hide_all_pages_none_active [of ?s0] n demo_home_facts show ?thesis
    by (intro conjI exI [of _ ?s1] exI [of _ "hide_all_pages ?s0"]) simp_all
qed

text \<open>
  Claim C2, as stated, fails for \<^verbatim>\<open>navigateTo\<close>: on the route \<^verbatim>\<open>about\<close>, navigating to the
  unregistered name \<^verbatim>\<open>nope\<close> changes nothing, and \<^verbatim>\<open>about\<close> stays the active route.
\<close>

theorem navigateTo_unknown_counterexample:
  "js_get (routes demo_about) ''nope'' = Undefined
   \<and> navigateTo ''nope'' demo_about = Some (Inr demo_about)
   \<and> active_routes demo_about = [''about'']"
proof -
  have u: "js_get (routes demo_about) ''nope'' = Undefined"
    by (simp add: demo_about_facts(2) demo_registry js_get_def object_prototype_keys_def)
  from navigateTo_unregistered [OF u] u demo_about_facts show ?thesis
    by simp
qed

text \<open>
  Claim C2, amended. Let the home route be registered and let \<open>u\<close> be a name that is
  neither registered nor inherited by plain objects. A \<^verbatim>\<open>popstate\<close> event that names \<open>u\<close>
  makes the home route the active one and logs one warning (none when \<open>u\<close> is the
  empty string, which the handler itself replaces by \<^verbatim>\<open>home\<close>). A router constructed with
  the hash \<^verbatim>\<open>#u\<close> starts on the home route and logs no warning. \<^verbatim>\<open>navigateTo(u)\<close> returns
  and changes neither the active page elements, nor the current route, nor the
  history, nor the console, and sets no timer.
\<close>

theorem unknown_route_falls_back_to_home:
  assumes "reachable doc location_hash s"
    and "js_get (routes s) u = Undefined"
    and "map_of (routes s) ''home'' = Some homeObj"
  shows "(\<exists>s'. handle (PopState (Some u)) s = Some (Inr s')
            \<and> active_routes s' = [''home''] \<and> currentRoute s' = ''home''
            \<and> console s' = console s @ (if u = [] then [] else [(Warn, not_found_warning u)]))
       \<and> (\<exists>s'. SPARouter doc (''#'' @ u) = Some (Inr s')
            \<and> active_routes s' = [''home''] \<and> currentRoute s' = ''home''
            \<and> filter (\<lambda>(l, m). l = Warn) (console s') = filter (\<lambda>(l, m). l = Warn) (console doc))
       \<and> (\<exists>s'. navigateTo u s = Some (Inr s')
            \<and> active_elements s' = active_elements s \<and> currentRoute s' = currentRoute s
            \<and> history s' = history s \<and> console s' = console s \<and> timers s' = timers s)"
proof -
  note rr = reachable_routes [OF assms(1)]
  have pop: "\<exists>s'. handle (PopState (Some u)) s = Some (Inr s')
            \<and> active_routes s' = [''home''] \<and> currentRoute s' = ''home''
            \<and> console s' = console s @ (if u = [] then [] else [(Warn, not_found_warning u)])"
  proof (cases "u = []")
    case True
    from transition_to_registered [OF reachable_distinct(1) [OF assms(1)] assms(3), of False]
    show ?thesis
      by (simp add: True loadRoute_def show_page_frame hide_all_pages_frame)
  next
    case False
    from popstate_unknown [OF assms False] False show ?thesis
      by auto
  qed
  have m: "map_of (registry (element_ids doc)) ''home'' = Some homeObj"
    using assms(3) rr by simp
  have "\<not> truthy (js_get (registry (element_ids doc)) (drop 1 (''#'' @ u)))"
    using assms(2) rr by simp
  then have x: "''home'' = (if truthy (js_get (registry (element_ids doc)) (drop 1 (''#'' @ u)))
                     then drop 1 (''#'' @ u) else ''home'')"
    by simp
  from constructor_registered [OF m x]
  have init: "\<exists>s'. SPARouter doc (''#'' @ u) = Some (Inr s')
            \<and> active_routes s' = [''home''] \<and> currentRoute s' = ''home''
            \<and> filter (\<lambda>(l, m). l = Warn) (console s') = filter (\<lambda>(l, m). l = Warn) (console doc)"
    by blast
  have nav: "\<exists>s'. navigateTo u s = Some (Inr s')
            \<and> active_elements s' = active_elements s \<and> currentRoute s' = currentRoute s
            \<and> history s' = history s \<and> console s' = console s \<and> timers s' = timers s"
    by (simp add: navigateTo_unregistered [OF assms(2)] closeMobileMenu_def scrollToTop_def)
  from pop init nav show ?thesis by blast
qed

theorem unknown_route_falls_back_to_home_witness:
  "reachable demo_doc [] demo_about
   \<and> js_get (routes demo_about) ''nope'' = Undefined
   \<and> map_of (routes demo_about) ''home'' = Some \<lparr>element = ''home-page'', path = ''home''\<rparr>
   \<and> (\<exists>s'. handle (PopState (Some ''nope'')) demo_about = Some (Inr s')
          \<and> active_routes s' = [''home''] \<and> currentRoute s' = ''home''
          \<and> console s' = console demo_about @ [(Warn, not_found_warning ''nope'')])
   \<and> (\<exists>s'. SPARouter demo_doc ''#nope'' = Some (Inr s')
          \<and> active_routes s' = [''home''] \<and> currentRoute s' = ''home'')
   \<and> (\<exists>s'. navigateTo ''nope'' demo_about = Some (Inr s')
          \<and> currentRoute s' = ''about'' \<and> history s' = [])"
proof -
  have u: "js_get (routes demo_about) ''nope'' = Undefined"
    by (simp add: demo_about_facts(2) demo_registry js_get_def object_prototype_keys_def)
  have m: "map_of (routes demo_about) ''home'' = Some \<lparr>element = ''home-page'', path = ''home''\<rparr>"
    by (simp add: demo_about_facts(2) demo_registry)
  from unknown_route_falls_back_to_home [OF demo_about_facts(1) u m] u m demo_about_facts
  show ?thesis
    by (auto simp del: handle.simps)
qed

text \<open>
  The initial load: when the constructor returns normally, exactly one registered route
  is active, the one the hash names or else the home route. (With an inherited name in
  the hash the constructor throws; with the home page missing and no registered route
  in the hash it does not return.)
\<close>

lemma initial_load_activates_one:
  assumes "SPARouter doc h = Some (Inr s0)"
  shows "\<exists>r0. active_routes s0 = [r0] \<and> currentRoute s0 = r0 \<and> timers s0 = timers doc"
proof -
  let ?ids = "element_ids doc"
  let ?x = "if truthy (js_get (registry ?ids) (drop 1 h)) then drop 1 h else ''home''"
  let ?s1 = "fold (\<lambda>(p, e). registerRoute p e) page_table
               (doc\<lparr>routes := [], currentRoute := ''home'', isLoading := False\<rparr>)"
  have r1: "routes ?s1 = registry ?ids" by (rule constructor_routes)
  have "distinct (map fst page_table)" by (simp add: page_table_def)
  from register_fold [OF this, of "doc\<lparr>routes := [], currentRoute := ''home'', isLoading := False\<rparr>"]
  have c1: "currentRoute ?s1 = ''home''" by simp
  have run: "SPARouter doc h = performRouteTransition ?x False ?s1"
    by (simp add: SPARouter_def Let_def loadRoute_def r1 c1)
  show ?thesis
  proof (cases "js_get (registry ?ids) ?x")
    case (Own ro)
    then have "map_of (registry ?ids) ?x = Some ro"
      by (auto simp: js_get_def split: option.splits if_splits)
    from constructor_registered [OF this refl] assms show ?thesis
      by auto
  next
    case Inherited
    then have "js_get (routes ?s1) ?x = Inherited" by (simp only: r1)
    from perform_inherited [OF this, of False] run assms show ?thesis
      by simp
  next
    case Undefined
    then have x: "?x = ''home''" by (auto split: if_splits)
    with Undefined have "js_get (routes ?s1) ''home'' = Undefined" by (simp only: r1)
    from perform_diverges [OF this this, of False] run assms x show ?thesis
      by simp
  qed
qed

lemma close_scroll_frame:
  "routes (closeMobileMenu (scrollToTop s)) = routes s"
  "active_elements (closeMobileMenu (scrollToTop s)) = active_elements s"
  "timers (closeMobileMenu (scrollToTop s)) = timers s"
  by (simp_all add: closeMobileMenu_def scrollToTop_def)

lemma one_active_step:
  assumes r: "reachable doc h s" and one: "length (active_routes s) = 1"
    and pend: "pending_registered s" and ev: "plain_event ev"
    and run: "handle ev s = Some (Inr s')"
  shows "length (active_routes s') = 1 \<and> pending_registered s'"
proof -
  note d = reachable_distinct(1) [OF r]
  have keep: "length (active_routes x) = 1 \<and> pending_registered x"
    if "routes x = routes s" "active_elements x = active_elements s"
      "set (timers x) \<subseteq> set (timers s) \<union> {(3000, HideLoaderOuter), (500, HideLoaderInner)}" for x
    using that one pend
    by (auto simp: active_routes_def pending_registered_def list_all_iff)
  have trans: "length (active_routes x) = 1 \<and> pending_registered x"
    if "performRouteTransition route p s0 = Some (Inr x)" "routes s0 = routes s"
      "set (timers s0) \<subseteq> set (timers s)" for x route p s0
  proof (cases "js_get (routes s0) route")
    case (Own ro)
    then have m: "map_of (routes s0) route = Some ro"
      by (auto simp: js_get_def split: option.splits if_splits)
    from d that(2) have d0: "distinct (map (element \<circ> snd) (routes s0))" by simp
    from transition_to_registered [OF d0 m, of p] that pend show ?thesis
      by (auto simp: show_page_frame hide_all_pages_frame pending_registered_def list_all_iff)
  next
    case Inherited
    from perform_inherited [OF this, of p] that(1) show ?thesis by simp
  next
    case Undefined
    let ?s1 = "(hide_all_pages s0)\<lparr>console := console s0 @ [(Warn, not_found_warning route)]\<rparr>"
    from perform_undefined [OF Undefined, of p] that(1)
    have run1: "performRouteTransition ''home'' True ?s1 = Some (Inr x)" by simp
    show ?thesis
    proof (cases "js_get (routes ?s1) ''home''")
      case (Own ro)
      then have m: "map_of (routes ?s1) ''home'' = Some ro"
        by (auto simp: js_get_def split: option.splits if_splits)
      from d that(2) have d1: "distinct (map (element \<circ> snd) (routes ?s1))"
        by (simp add: hide_all_pages_frame)
      from transition_to_registered [OF d1 m, of True] run1 that pend show ?thesis
        by (auto simp: show_page_frame hide_all_pages_frame pending_registered_def list_all_iff)
    next
      case Inherited
      from perform_inherited [OF this, of True] run1 show ?thesis by simp
    next
      case u: Undefined
      from perform_diverges [OF u u, of True] run1 show ?thesis by simp
    qed
  qed
  show ?thesis
  proof (cases ev)
    case (Click route)
    show ?thesis
    proof (cases "truthy (js_get (routes s) route) \<and> \<not> isLoading s \<and> currentRoute s \<noteq> route")
      case True
      with ev Click have reg: "map_of (routes s) route \<noteq> None"
        by (auto simp: js_get_def split: option.splits if_splits)
      from True run Click
      have s': "s' = (showLoader s)\<lparr>timers := timers s @ [(100, TransitionThenHide route True)]\<rparr>"
        by (simp add: navigateTo_def loadRoute_def Let_def showLoader_def)
      with one pend reg show ?thesis
        by (auto simp: active_routes_def pending_registered_def showLoader_def)
    next
      case False
      with run Click have "s' = closeMobileMenu (scrollToTop s) \<or> s' = s"
        by (auto simp: navigateTo_def split: if_splits)
      then have "routes s' = routes s \<and> active_elements s' = active_elements s
          \<and> timers s' = timers s"
        by (auto simp: close_scroll_frame)
      then show ?thesis
        by (intro keep) auto
    qed
  next
    case (PopState st)
    with run obtain route where "performRouteTransition route False s = Some (Inr s')"
      by (auto simp: loadRoute_def)
    from trans [OF this] show ?thesis by simp
  next
    case (TimerFires n)
    show ?thesis
    proof (cases "n < length (timers s)")
      case False
      with run TimerFires have "s' = s" by simp
      with one pend show ?thesis by simp
    next
      case True
      let ?s0 = "s\<lparr>timers := take n (timers s) @ drop (Suc n) (timers s)\<rparr>"
      have sub: "set (timers ?s0) \<subseteq> set (timers s)"
        by (auto dest: in_set_takeD in_set_dropD)
      from True run TimerFires have task: "run_task (snd (timers s ! n)) ?s0 = Some (Inr s')"
        by simp
      show ?thesis
      proof (cases "snd (timers s ! n)")
        case (TransitionThenHide route p)
        with task obtain x where x: "performRouteTransition route p ?s0 = Some (Inr x)"
          "s' = hideLoader x"
          by (auto split: option.splits sum.splits)
        from trans [OF x(1) _ sub] have "length (active_routes x) = 1 \<and> pending_registered x"
          by simp
        with x(2) show ?thesis
          by (simp add: hideLoader_def active_routes_def pending_registered_def)
      next
        case HideLoaderOuter
        with task have "s' = ?s0\<lparr>loader_hidden := True, timers := timers ?s0 @ [(500, HideLoaderInner)]\<rparr>"
          by simp
        with sub show ?thesis
          by (intro keep) auto
      next
        case HideLoaderInner
        with task have "s' = ?s0\<lparr>app_loaded := True, isLoading := False\<rparr>"
          by simp
        with sub show ?thesis
          by (intro keep) auto
      qed
    qed
  qed
qed

lemma run_events_one_active:
  assumes "reachable doc h s0" and "length (active_routes s0) = 1" and "pending_registered s0"
    and "list_all plain_event evs" and "run_events evs s0 = Some (Inr s)"
  shows "length (active_routes s) = 1 \<and> reachable doc h s"
  using assms
proof (induction evs arbitrary: s0)
  case Nil
  then show ?case by simp
next
  case (Cons ev evs)
  from Cons.prems(5) obtain s1 where s1: "handle ev s0 = Some (Inr s1)"
    "run_events evs s1 = Some (Inr s)"
    by (auto split: option.splits sum.splits)
  from Cons.prems(4) have ev: "plain_event ev" and evs: "list_all plain_event evs"
    by simp_all
  from one_active_step [OF Cons.prems(1,2,3) ev s1(1)]
  have "length (active_routes s1) = 1" "pending_registered s1" by simp_all
  moreover from reachable.handled [OF Cons.prems(1) s1(1)] have "reachable doc h s1"
    by simp
  ultimately show ?case
    using Cons.IH [OF _ _ _ evs s1(2)] by blast
qed

text \<open>
  The invariant of the router. When the constructor has returned normally, exactly one
  registered route is active, and this stays so along every sequence of clicks,
  \<^verbatim>\<open>popstate\<close> events and timer firings whose handlers return normally, provided no
  click names one of the inherited keys.
\<close>

lemma one_active_invariant:
  assumes "SPARouter doc h = Some (Inr s0)" and "timers doc = []"
    and "list_all plain_event evs" and "run_events evs s0 = Some (Inr s)"
  shows "\<exists>r. active_routes s = [r]"
proof -
  from initial_load_activates_one [OF assms(1)] assms(2)
  have one: "length (active_routes s0) = 1" and pend: "pending_registered s0"
    by (auto simp: pending_registered_def)
  from reachable.constructed [OF assms(1)] have "reachable doc h s0" by simp
  from run_events_one_active [OF this one pend assms(3,4)]
  have "length (active_routes s) = 1" by simp
  then show ?thesis
    by (cases "active_routes s") auto
qed

end
